theory Spec2Isabelle
  imports Complex_Main "HOL-Library.Word"
begin

section \<open>JavaScript strings and numbers\<close>

text \<open>
  A JavaScript string is a sequence of UTF-16 code units; \<open>length\<close>, \<open>slice\<close>, \<open>split\<close>
  and the (non-unicode) regular expressions of the source all work on code units.
  In the code units used below, \<open>32\<close> is the space, \<open>60\<close> is \<open><\<close>, \<open>62\<close> is \<open>>\<close> and
  \<open>8230\<close> is the horizontal ellipsis U+2026.  The coordinates and widths of the canvas are
  rationals (\<open>number\<close>); the source only compares and adds them.  The number an encoder
  event carries is multiplied in double precision, so it is a \<open>js_number\<close> (below).
\<close>

type_synonym code_unit = "16 word"
type_synonym jsstring = "code_unit list"
type_synonym number = rat
type_synonym bytes = "8 word list"

definition ascii :: "string \<Rightarrow> jsstring" where
  "ascii s = map of_char s"

text \<open>
  The class \<open>\s\<close> of a regular expression and the characters removed by
  \<open>String.prototype.trim\<close>: WhiteSpace and LineTerminator of ECMAScript, that is
  TAB, LF, VT, FF, CR, SP, NBSP, U+1680, U+2000..U+200A, U+2028, U+2029, U+202F, U+205F,
  U+3000 and U+FEFF.
\<close>

definition is_ws :: "code_unit \<Rightarrow> bool" where
  "is_ws c \<longleftrightarrow>
     c \<in> {9, 10, 11, 12, 13, 32, 160, 5760, 8232, 8233, 8239, 8287, 12288, 65279}
     \<or> (8192 \<le> c \<and> c \<le> 8202)"

text \<open>
  \<open>value.replace(/<[^>]+>/g, " ")\<close>: scanning from the left, a \<open><\<close> followed by at least
  one code unit other than \<open>>\<close> and then a \<open>>\<close> is replaced by one space and the scan
  resumes after the match; any other code unit is copied.
\<close>

function strip_tags :: "jsstring \<Rightarrow> jsstring" where
  "strip_tags [] = []"
| "strip_tags (c # cs) =
     (if c = 60 \<and> takeWhile (\<lambda>d. d \<noteq> 62) cs \<noteq> [] \<and> dropWhile (\<lambda>d. d \<noteq> 62) cs \<noteq> []
      then 32 # strip_tags (tl (dropWhile (\<lambda>d. d \<noteq> 62) cs))
      else c # strip_tags cs)"
  by pat_completeness auto
termination
proof (relation "measure length")
  fix c :: code_unit and cs :: jsstring
  have "length (tl (dropWhile (\<lambda>d. d \<noteq> 62) cs)) \<le> length cs"
    using length_dropWhile_le [of "\<lambda>d. d \<noteq> 62" cs] by simp
  then show "(tl (dropWhile (\<lambda>d. d \<noteq> 62) cs), c # cs) \<in> measure length"
    by simp
qed simp_all

text \<open>\<open>replace(/\s+/g, " ")\<close>: every maximal run of whitespace becomes one space.\<close>

function collapse_ws :: "jsstring \<Rightarrow> jsstring" where
  "collapse_ws [] = []"
| "collapse_ws (c # cs) =
     (if is_ws c then 32 # collapse_ws (dropWhile is_ws cs) else c # collapse_ws cs)"
  by pat_completeness auto
termination
proof (relation "measure length")
  fix c :: code_unit and cs :: jsstring
  show "(dropWhile is_ws cs, c # cs) \<in> measure length"
    using length_dropWhile_le [of is_ws cs] by simp
qed simp_all

definition trim :: "jsstring \<Rightarrow> jsstring" where
  "trim s = rev (dropWhile is_ws (rev (dropWhile is_ws s)))"

text \<open>\<open>index.toString()\<close> for a non-negative integer, and \<open>padStart(n, "0")\<close>.\<close>

function toString :: "nat \<Rightarrow> jsstring" where
  "toString n = (if n < 10 then [of_nat (48 + n)] else toString (n div 10) @ [of_nat (48 + n mod 10)])"
  by pat_completeness auto
termination
  by (relation "measure id") auto

definition padStart :: "nat \<Rightarrow> code_unit \<Rightarrow> jsstring \<Rightarrow> jsstring" where
  "padStart targetLength c s = replicate (targetLength - length s) c @ s"

section \<open>Double-precision numbers\<close>

text \<open>
  A value of the type \<open>number\<close> at run time: a finite double (given by its exact rational
  value), \<open>NaN\<close>, or an infinity.  The sign of a zero is not kept.
\<close>

datatype js_number = Finite rat | NaN | PosInfinity | NegInfinity

text \<open>The number of binary digits of a natural number.\<close>

function bit_length :: "nat \<Rightarrow> nat" where
  "bit_length n = (if n = 0 then 0 else Suc (bit_length (n div 2)))"
  by pat_completeness simp_all
termination
  by (relation "measure id") simp_all

declare bit_length.simps [simp del]

text \<open>For \<open>x\<close> other than zero, the exponent \<open>e\<close> with \<open>2 ^ e \<le> |x| < 2 ^ (e + 1)\<close>.\<close>

definition binade :: "rat \<Rightarrow> int" where
  "binade x =
     (if 1 \<le> \<bar>x\<bar> then int (bit_length (nat \<lfloor>\<bar>x\<bar>\<rfloor>)) - 1
      else - int (bit_length (nat (\<lceil>1 / \<bar>x\<bar>\<rceil> - 1))))"

definition pow2 :: "int \<Rightarrow> rat" where
  "pow2 e = (if 0 \<le> e then 2 ^ nat e else 1 / 2 ^ nat (- e))"

definition round_half_even :: "rat \<Rightarrow> int" where
  "round_half_even r =
     (if r - of_int \<lfloor>r\<rfloor> < 1 / 2 then \<lfloor>r\<rfloor>
      else if 1 / 2 < r - of_int \<lfloor>r\<rfloor> then \<lfloor>r\<rfloor> + 1
      else if even \<lfloor>r\<rfloor> then \<lfloor>r\<rfloor> else \<lfloor>r\<rfloor> + 1)"

text \<open>
  The double nearest to a rational (IEEE 754 binary64, round to nearest, ties to even):
  53 significant bits, the least exponent \<open>-1022\<close> (below it the spacing stays
  \<open>2 ^ -1074\<close>), and an infinity from \<open>2 ^ 1024\<close> on.
\<close>

definition to_double :: "rat \<Rightarrow> js_number" where
  "to_double x =
     (if x = 0 then Finite 0
      else
        (let q = pow2 (max (binade x) (- 1022) - 52);
             m = of_int (round_half_even (\<bar>x\<bar> / q)) * q
         in if pow2 1024 \<le> m then (if 0 < x then PosInfinity else NegInfinity)
            else Finite (if 0 < x then m else - m)))"

text \<open>The product \<open>a * b\<close> of two numbers.\<close>

fun js_mult :: "js_number \<Rightarrow> js_number \<Rightarrow> js_number" where
  "js_mult NaN b = NaN"
| "js_mult a NaN = NaN"
| "js_mult (Finite a) (Finite b) = to_double (a * b)"
| "js_mult (Finite a) PosInfinity =
     (if a = 0 then NaN else if 0 < a then PosInfinity else NegInfinity)"
| "js_mult (Finite a) NegInfinity =
     (if a = 0 then NaN else if 0 < a then NegInfinity else PosInfinity)"
| "js_mult PosInfinity (Finite b) =
     (if b = 0 then NaN else if 0 < b then PosInfinity else NegInfinity)"
| "js_mult NegInfinity (Finite b) =
     (if b = 0 then NaN else if 0 < b then NegInfinity else PosInfinity)"
| "js_mult PosInfinity PosInfinity = PosInfinity"
| "js_mult PosInfinity NegInfinity = NegInfinity"
| "js_mult NegInfinity PosInfinity = NegInfinity"
| "js_mult NegInfinity NegInfinity = PosInfinity"

text \<open>
  \<open>Math.round\<close>: the nearest integer, a tie towards positive infinity; \<open>NaN\<close> and the
  infinities are returned as they are.  \<open>Math.min\<close>: \<open>NaN\<close> if an argument is \<open>NaN\<close>.
\<close>

fun Math_round :: "js_number \<Rightarrow> js_number" where
  "Math_round (Finite v) = Finite (of_int \<lfloor>v + 1 / 2\<rfloor>)"
| "Math_round v = v"

fun Math_min :: "js_number \<Rightarrow> js_number \<Rightarrow> js_number" where
  "Math_min NaN b = NaN"
| "Math_min a NaN = NaN"
| "Math_min NegInfinity b = NegInfinity"
| "Math_min a NegInfinity = NegInfinity"
| "Math_min PosInfinity b = b"
| "Math_min a PosInfinity = a"
| "Math_min (Finite a) (Finite b) = Finite (min a b)"

section \<open>Values at run time\<close>

text \<open>
  A value as the XML parser can leave it in a field: the types of the source are erased
  at run time, and the parser turns the text of an element into a number or a boolean
  where it reads as one, and an element with children or attributes into an object.
\<close>

datatype js_value =
  JUndefined
| JNull
| JBool bool
| JNum js_number
| JStr jsstring
| JObj "(jsstring \<times> js_value) list"
| JArr "js_value list"
| JFun

text \<open>What \<open>!value\<close> negates: \<open>undefined\<close>, \<open>null\<close>, \<open>false\<close>, \<open>0\<close>, \<open>NaN\<close> and \<open>""\<close> are falsy.\<close>

fun truthy :: "js_value \<Rightarrow> bool" where
  "truthy JUndefined = False"
| "truthy JNull = False"
| "truthy (JBool b) = b"
| "truthy (JNum (Finite r)) = (r \<noteq> 0)"
| "truthy (JNum NaN) = False"
| "truthy (JNum PosInfinity) = True"
| "truthy (JNum NegInfinity) = True"
| "truthy (JStr s) = (s \<noteq> [])"
| "truthy (JObj fields) = True"
| "truthy (JArr elems) = True"
| "truthy JFun = True"

text \<open>\<open>v ?? ""\<close>: the empty string for \<open>undefined\<close> and \<open>null\<close>, else the value itself.\<close>

fun or_empty :: "js_value \<Rightarrow> js_value" where
  "or_empty JUndefined = JStr []"
| "or_empty JNull = JStr []"
| "or_empty v = v"

section \<open>The headlines route (\<open>app/api/headlines/route.ts\<close>)\<close>

text \<open>
  An item of the feed, as the route reads it: the values of its properties \<open>title\<close>,
  \<open>link\<close>, \<open>pubDate\<close> and \<open>description\<close>.  The declared type \<open>RssItem\<close> says each is a string
  or \<open>undefined\<close>; at run time each can be any value.
\<close>

record RssItem =
  item_title :: js_value
  item_link :: js_value
  item_pubDate :: js_value
  item_description :: js_value

text \<open>A headline as the page receives it and uses it (the type \<open>Headline\<close> of the page).\<close>

record Headline =
  title :: jsstring
  link :: jsstring
  publishedAt :: jsstring
  description :: jsstring

text \<open>
  A headline as the route builds it: \<open>title\<close> and \<open>description\<close> are strings made by the
  sanitizer, \<open>link\<close> and \<open>publishedAt\<close> are passed on as they are.
\<close>

record RouteHeadline =
  out_title :: jsstring
  out_link :: js_value
  out_publishedAt :: js_value
  out_description :: jsstring

definition UNKNOWN_TITLE :: jsstring where
  "UNKNOWN_TITLE = [2309, 2332, 2381, 2334, 2366, 2340, 32, 2358, 2368, 2352, 2381, 2359, 2325]"

text \<open>
  What can be thrown: an \<open>Error\<close> with its message, or any other value.  A call that can
  fail returns \<open>thrown + 'a\<close>.
\<close>

datatype thrown = ErrorObj jsstring | OtherThrown

text \<open>
  \<open>sanitizeText(value?: string)\<close> on an argument of its declared type; \<open>None\<close> is
  \<open>undefined\<close>, and \<open>!value\<close> also holds of \<open>""\<close>.
\<close>

definition sanitizeText :: "jsstring option \<Rightarrow> jsstring" where
  "sanitizeText v =
     (case v of
        None \<Rightarrow> []
      | Some s \<Rightarrow> if s = [] then [] else trim (collapse_ws (strip_tags s)))"

text \<open>
  The same function on whatever value it is called with at run time.  A falsy value
  gives \<open>""\<close>.  A truthy value that is not a string has no method \<open>replace\<close> (a number, a
  boolean, an array, a function) or has a property \<open>replace\<close> that is no function (an
  object of parsed data), so the call \<open>value.replace(...)\<close> throws a \<open>TypeError\<close>.
\<close>

definition sanitizeText_at_runtime :: "js_value \<Rightarrow> thrown + jsstring" where
  "sanitizeText_at_runtime v =
     (if \<not> truthy v then Inr []
      else
        (case v of
           JStr s \<Rightarrow> Inr (sanitizeText (Some s))
         | _ \<Rightarrow> Inl (ErrorObj (ascii ''value.replace is not a function''))))"

text \<open>
  What \<open>channel?.item\<close> can be: \<open>undefined\<close> (no such key), another falsy value (an empty
  element parses to \<open>""\<close>), an array of items, or one truthy value that is no array.
\<close>

datatype item_field =
  ItemUndefined
| ItemFalsy
| ItemArray "RssItem list"
| ItemObject RssItem

text \<open>The parser's result, as far as \<open>parsed?.rss?.channel\<close> reads it; \<open>None\<close> is nullish.\<close>

record Channel =
  item :: item_field

record Rss =
  channel :: "Channel option"

record Parsed =
  rss :: "Rss option"

definition channel_of :: "Parsed option \<Rightarrow> Channel option" where
  "channel_of parsed =
     (case parsed of
        None \<Rightarrow> None
      | Some p \<Rightarrow> (case rss p of None \<Rightarrow> None | Some r \<Rightarrow> channel r))"

definition items_of :: "Channel option \<Rightarrow> RssItem list" where
  "items_of ch =
     (case ch of
        None \<Rightarrow> []
      | Some c \<Rightarrow>
          (case item c of
             ItemArray xs \<Rightarrow> xs
           | ItemObject x \<Rightarrow> [x]
           | ItemFalsy \<Rightarrow> []
           | ItemUndefined \<Rightarrow> []))"

text \<open>
  The callback of the \<open>map\<close> (lines 53 to 58): the object literal evaluates the title
  first and the description last; a throw of the sanitizer ends it.
\<close>

definition to_headline :: "RssItem \<Rightarrow> thrown + RouteHeadline" where
  "to_headline it =
     (case sanitizeText_at_runtime (item_title it) of
        Inl e \<Rightarrow> Inl e
      | Inr t \<Rightarrow>
          (case sanitizeText_at_runtime (item_description it) of
             Inl e \<Rightarrow> Inl e
           | Inr d \<Rightarrow>
               Inr \<lparr> out_title = (if t \<noteq> [] then t else UNKNOWN_TITLE),
                     out_link = or_empty (item_link it),
                     out_publishedAt = or_empty (item_pubDate it),
                     out_description = d \<rparr>))"

text \<open>\<open>Array.prototype.map\<close> with that callback: the first throw ends the whole map.\<close>

fun map_headlines :: "RssItem list \<Rightarrow> thrown + RouteHeadline list" where
  "map_headlines [] = Inr []"
| "map_headlines (it # rest) =
     (case to_headline it of
        Inl e \<Rightarrow> Inl e
      | Inr h \<Rightarrow>
          (case map_headlines rest of
             Inl e \<Rightarrow> Inl e
           | Inr hs \<Rightarrow> Inr (h # hs)))"

definition normalize :: "Parsed option \<Rightarrow> thrown + RouteHeadline list" where
  "normalize parsed = map_headlines (take 6 (items_of (channel_of parsed)))"

record upstream_response =
  up_ok :: bool
  up_text :: "thrown + jsstring"

record route_env =
  upstream :: "thrown + upstream_response"
  xml_parse :: "jsstring \<Rightarrow> thrown + Parsed option"

datatype json_body = HeadlinesBody "RouteHeadline list" | ErrorBody jsstring

record http_result =
  http_status :: nat
  http_body :: json_body

definition unexpected_error :: http_result where
  "unexpected_error =
     \<lparr> http_status = 500, http_body = ErrorBody (ascii ''Unexpected error while fetching headlines'') \<rparr>"

text \<open>\<open>GET\<close>: whatever is thrown inside the \<open>try\<close>, the map included, is answered with 500.\<close>

definition GET :: "route_env \<Rightarrow> http_result" where
  "GET env =
     (case upstream env of
        Inl e \<Rightarrow> unexpected_error
      | Inr response \<Rightarrow>
          if \<not> up_ok response
          then \<lparr> http_status = 502, http_body = ErrorBody (ascii ''Failed to fetch headlines'') \<rparr>
          else
            (case up_text response of
               Inl e \<Rightarrow> unexpected_error
             | Inr xml \<Rightarrow>
                 (case xml_parse env xml of
                    Inl e \<Rightarrow> unexpected_error
                  | Inr parsed \<Rightarrow>
                      (case normalize parsed of
                         Inl e \<Rightarrow> unexpected_error
                       | Inr headlines \<Rightarrow>
                           \<lparr> http_status = 200, http_body = HeadlinesBody headlines \<rparr>))))"

text \<open>
  A feed the route can receive: one item whose title reads as a number,
  \<open><rss><channel><item><title>2024</title></item></channel></rss>\<close>, which the parser
  leaves as the number 2024; and a feed of seven items, the third of them with that title.
\<close>

definition numeric_title_item :: RssItem where
  "numeric_title_item =
     \<lparr> item_title = JNum (Finite 2024), item_link = JUndefined, item_pubDate = JUndefined,
       item_description = JUndefined \<rparr>"


definition numeric_title_feed :: "Parsed option" where
  "numeric_title_feed =
     Some \<lparr> rss = Some \<lparr> channel = Some \<lparr> item = ItemObject numeric_title_item \<rparr> \<rparr> \<rparr>"



section \<open>The page (\<open>app/page.tsx\<close>): date caption\<close>

definition TIME_UNAVAILABLE :: jsstring where
  "TIME_UNAVAILABLE =
     [2360, 2350, 2351, 32, 2313, 2346, 2354, 2348, 2381, 2343, 32, 2344, 2361, 2368, 2306]"

text \<open>
  \<open>new Date(value)\<close> holds a time value or is an invalid date (\<open>None\<close>, whose \<open>valueOf()\<close>
  is \<open>NaN\<close>); \<open>date_parse\<close> is the platform's date parser.  \<open>Intl.DateTimeFormat.format\<close>
  throws a \<open>RangeError\<close> on an invalid date and otherwise returns what the platform's
  formatter \<open>intl_format\<close> produces for the locale and styles of the source.
\<close>

definition Intl_format :: "(number \<Rightarrow> jsstring) \<Rightarrow> number option \<Rightarrow> thrown + jsstring" where
  "Intl_format intl_format date =
     (case date of
        None \<Rightarrow> Inl (ErrorObj (ascii ''Invalid time value''))
      | Some t \<Rightarrow> Inr (intl_format t))"

definition formatToHindiDate ::
  "(jsstring \<Rightarrow> number option) \<Rightarrow> (number \<Rightarrow> jsstring) \<Rightarrow> jsstring \<Rightarrow> thrown + jsstring" where
  "formatToHindiDate date_parse intl_format v =
     (if v = [] then Inr TIME_UNAVAILABLE
      else if date_parse v = None then Inr TIME_UNAVAILABLE
      else Intl_format intl_format (date_parse v))"

section \<open>The page: wrapping a text into lines\<close>

text \<open>The canvas operations a frame is made of; the context's state is set by assignment.\<close>

datatype fill_style =
  Color jsstring
| LinearGradient number number number number "(number \<times> jsstring) list"

datatype canvas_op =
  SetFillStyle fill_style
| SetFont jsstring
| FillRect number number number number
| FillText jsstring number number

text \<open>\<open>normalized.split(" ")\<close>: the pieces between the spaces; \<open>"".split(" ")\<close> is \<open>[""]\<close>.\<close>

fun split_space :: "jsstring \<Rightarrow> jsstring list" where
  "split_space [] = [[]]"
| "split_space (c # cs) =
     (if c = 32 then [] # split_space cs
      else (case split_space cs of [] \<Rightarrow> [[c]] | w # ws \<Rightarrow> (c # w) # ws))"

text \<open>
  The loop over the words (lines 55 to 64).  \<open>m\<close> is \<open>ctx.measureText(_).width\<close> under the
  font the context has at the call; an empty \<open>line\<close> is falsy.
\<close>

function wrap_loop ::
  "(jsstring \<Rightarrow> number) \<Rightarrow> number \<Rightarrow> jsstring list \<Rightarrow> jsstring \<Rightarrow> jsstring list
     \<Rightarrow> jsstring list \<times> jsstring" where
  "wrap_loop m maxWidth lines line [] = (lines, line)"
| "wrap_loop m maxWidth lines line (word # rest) =
     (let testLine = (if line \<noteq> [] then line @ 32 # word else word)
      in if m testLine > maxWidth \<and> line \<noteq> []
         then wrap_loop m maxWidth (lines @ [line]) word rest
         else wrap_loop m maxWidth lines testLine rest)"
  by pat_completeness simp_all
termination
  by (relation "measure (\<lambda>(m, maxWidth, lines, line, words). length words)")
    (simp_all (no_asm))

text \<open>The greedy lines of a normalized text (lines 51 to 68).\<close>

definition greedy_lines :: "(jsstring \<Rightarrow> number) \<Rightarrow> number \<Rightarrow> jsstring \<Rightarrow> jsstring list" where
  "greedy_lines m maxWidth normalized =
     (case wrap_loop m maxWidth [] [] (split_space normalized) of
        (lines, line) \<Rightarrow> if line \<noteq> [] then lines @ [line] else lines)"

text \<open>The loop that shortens the last line until it fits with the ellipsis (lines 75 to 77).\<close>

function truncate_line :: "(jsstring \<Rightarrow> number) \<Rightarrow> number \<Rightarrow> jsstring \<Rightarrow> jsstring" where
  "truncate_line m maxWidth lastLine =
     (if m (lastLine @ [8230]) > maxWidth \<and> lastLine \<noteq> []
      then truncate_line m maxWidth (butlast lastLine)
      else lastLine)"
  by pat_completeness auto
termination
proof (relation "measure (\<lambda>(m, maxWidth, lastLine). length lastLine)")
  fix m :: "jsstring \<Rightarrow> number" and maxWidth :: number and lastLine :: jsstring
  assume "maxWidth < m (lastLine @ [8230]) \<and> lastLine \<noteq> []"
  then have "length (butlast lastLine) < length lastLine"
    by (cases lastLine rule: rev_cases) simp_all
  then show "((m, maxWidth, butlast lastLine), m, maxWidth, lastLine)
       \<in> measure (\<lambda>(m, maxWidth, lastLine). length lastLine)" by simp
qed simp

text \<open>Lines 70 to 79; \<open>boundedLines[-1]\<close> reads \<open>undefined\<close> and writing it adds no element.\<close>

definition bound_lines ::
  "(jsstring \<Rightarrow> number) \<Rightarrow> number \<Rightarrow> number \<Rightarrow> jsstring list \<Rightarrow> jsstring list" where
  "bound_lines m maxWidth maxLines lines =
     (let limit = nat (max 1 \<lfloor>maxLines\<rfloor>);
          boundedLines = take limit lines
      in if length lines > limit
         then
           (let lastLine =
                  truncate_line m maxWidth (if boundedLines = [] then [] else last boundedLines)
            in boundedLines[length boundedLines - 1 := lastLine @ [8230]])
         else boundedLines)"

text \<open>The drawing loop (lines 81 to 87): the calls of \<open>fillText\<close> and the final \<open>currentY\<close>.\<close>

fun draw_lines :: "number \<Rightarrow> number \<Rightarrow> number \<Rightarrow> jsstring list \<Rightarrow> number \<times> canvas_op list" where
  "draw_lines x currentY lineHeight [] = (currentY, [])"
| "draw_lines x currentY lineHeight (entry # rest) =
     (case draw_lines x (currentY + lineHeight) lineHeight rest of
        (y', ops) \<Rightarrow> (y', FillText entry x currentY # ops))"

definition wrapHeadlineText ::
  "(jsstring \<Rightarrow> number) \<Rightarrow> jsstring \<Rightarrow> number \<Rightarrow> number \<Rightarrow> number \<Rightarrow> number \<Rightarrow> number
     \<Rightarrow> number \<times> canvas_op list" where
  "wrapHeadlineText m text x y maxWidth lineHeight maxLines =
     (let normalized = trim (collapse_ws text)
      in if normalized = [] then (y, [])
         else draw_lines x y lineHeight
                (bound_lines m maxWidth maxLines (greedy_lines m maxWidth normalized)))"

text \<open>The texts a call draws, in order.\<close>

fun drawn_texts :: "canvas_op list \<Rightarrow> jsstring list" where
  "drawn_texts [] = []"
| "drawn_texts (FillText t x y # ops) = t # drawn_texts ops"
| "drawn_texts (other # ops) = drawn_texts ops"

text \<open>Predicates on strings used to state the properties of the sanitizer and the wrapper.\<close>

fun has_tag :: "jsstring \<Rightarrow> bool" where
  "has_tag [] = False"
| "has_tag (c # cs) =
     ((c = 60 \<and> takeWhile (\<lambda>d. d \<noteq> 62) cs \<noteq> [] \<and> dropWhile (\<lambda>d. d \<noteq> 62) cs \<noteq> [])
      \<or> has_tag cs)"

fun single_spaced :: "jsstring \<Rightarrow> bool" where
  "single_spaced [] = True"
| "single_spaced [c] = (is_ws c \<longrightarrow> c = 32)"
| "single_spaced (c # d # r) = ((is_ws c \<longrightarrow> c = 32 \<and> \<not> is_ws d) \<and> single_spaced (d # r))"

definition trimmed :: "jsstring \<Rightarrow> bool" where
  "trimmed s \<longleftrightarrow> (s = [] \<or> (\<not> is_ws (hd s) \<and> \<not> is_ws (last s)))"

text \<open>\<open>words.join(" ")\<close>, the inverse of the split.\<close>

fun join_space :: "jsstring list \<Rightarrow> jsstring" where
  "join_space [] = []"
| "join_space [w] = w"
| "join_space (w # v # ws) = w @ 32 # join_space (v # ws)"

text \<open>A width measure for examples: ten units for every code unit.\<close>

definition ten_per_unit :: "jsstring \<Rightarrow> number" where
  "ten_per_unit s = 10 * of_nat (length s)"

text \<open>A width measure that is not monotone: one two-word text is wide, all others narrow.\<close>

definition dip_measure :: "jsstring \<Rightarrow> number" where
  "dip_measure s = (if s = ascii ''a b'' then 200 else 10)"

section \<open>The page: rendering a frame\<close>

record Frame =
  name :: jsstring
  data :: bytes

text \<open>
  What the browser supplies to \<open>createFrame\<close>: whether the canvas made for a frame index
  hands out a 2d context, the width of a text under a font, the date parser and
  formatter, and the PNG bytes of a drawn canvas (\<open>toDataURL\<close>, then \<open>fetchFile\<close>).
\<close>

record canvas_env =
  getContext :: "nat \<Rightarrow> bool"
  measureText :: "jsstring \<Rightarrow> jsstring \<Rightarrow> number"
  parse_date :: "jsstring \<Rightarrow> number option"
  format_date :: "number \<Rightarrow> jsstring"
  toPng :: "canvas_op list \<Rightarrow> thrown + bytes"

definition CANVAS_WIDTH :: number where
  "CANVAS_WIDTH = 1280"

definition CANVAS_HEIGHT :: number where
  "CANVAS_HEIGHT = 720"

definition MASTHEAD :: jsstring where
  "MASTHEAD =
     [2310, 2332, 32, 2325, 2368, 32, 2360, 2369, 2352, 2381, 2326, 2364, 2367, 2351, 2366, 2305]"

definition frame_name :: "nat \<Rightarrow> jsstring" where
  "frame_name index = ascii ''frame'' @ padStart 3 48 (toString index) @ ascii ''.png''"

definition background_ops :: "canvas_op list" where
  "background_ops =
     [SetFillStyle (LinearGradient 0 0 CANVAS_WIDTH CANVAS_HEIGHT
        [(0, ascii ''#0f172a''), (1, ascii ''#1e293b'')]),
      FillRect 0 0 CANVAS_WIDTH CANVAS_HEIGHT,
      SetFillStyle (LinearGradient 0 0 0 CANVAS_HEIGHT
        [(0, ascii ''rgba(15, 23, 42, 0.2)''), (1, ascii ''rgba(8, 47, 73, 0.8)'')]),
      FillRect 0 0 CANVAS_WIDTH CANVAS_HEIGHT,
      SetFillStyle (Color (ascii ''rgba(255,255,255,0.92)'')),
      SetFont (ascii ''600 56px 'Noto Sans Devanagari', 'Hind', sans-serif''),
      FillText MASTHEAD 80 140]"

definition title_ops :: "canvas_env \<Rightarrow> Headline \<Rightarrow> canvas_op list" where
  "title_ops env headline =
     [SetFont (ascii ''400 34px 'Noto Sans Devanagari', 'Hind', sans-serif''),
      SetFillStyle (Color (ascii ''rgba(226,232,240,0.96)''))]
     @ snd (wrapHeadlineText
              (measureText env (ascii ''400 34px 'Noto Sans Devanagari', 'Hind', sans-serif''))
              (title headline) 80 220 (CANVAS_WIDTH - 160) 58 3)"

definition description_ops :: "canvas_env \<Rightarrow> Headline \<Rightarrow> canvas_op list" where
  "description_ops env headline =
     (if description headline \<noteq> []
      then [SetFont (ascii ''300 28px 'Noto Sans Devanagari', 'Hind', sans-serif''),
            SetFillStyle (Color (ascii ''rgba(203,213,225,0.9)''))]
           @ snd (wrapHeadlineText
                    (measureText env (ascii ''300 28px 'Noto Sans Devanagari', 'Hind', sans-serif''))
                    (description headline) 80 420 (CANVAS_WIDTH - 160) 46 4)
      else [])"

definition counter_ops :: "nat \<Rightarrow> nat \<Rightarrow> canvas_op list" where
  "counter_ops index n_total =
     [SetFont (ascii ''500 26px 'Inter', 'Hind', sans-serif''),
      SetFillStyle (Color (ascii ''rgba(148,163,184,0.95)'')),
      FillText (toString (index + 1) @ ascii '' / '' @ toString n_total)
        (CANVAS_WIDTH - 160) (CANVAS_HEIGHT - 80)]"

definition createFrame :: "canvas_env \<Rightarrow> Headline \<Rightarrow> nat \<Rightarrow> nat \<Rightarrow> thrown + Frame" where
  "createFrame env headline index n_total =
     (if \<not> getContext env index
      then Inl (ErrorObj (ascii ''Canvas rendering context unavailable''))
      else
        (case formatToHindiDate (parse_date env) (format_date env) (publishedAt headline) of
           Inl e \<Rightarrow> Inl e
         | Inr caption \<Rightarrow>
             (case toPng env
                     (background_ops @ title_ops env headline @ description_ops env headline
                      @ counter_ops index n_total
                      @ [SetFont (ascii ''400 24px 'Inter', sans-serif''),
                         FillText caption 80 (CANVAS_HEIGHT - 80)]) of
                Inl e \<Rightarrow> Inl e
              | Inr png \<Rightarrow> Inr \<lparr> name = frame_name index, data = png \<rparr>)))"

section \<open>The page: one run of \<open>handleGenerate\<close>\<close>

datatype GenerationStatus = Idle | Fetching | Rendering | Done | Error

text \<open>What a run does to the state of the page and to the encoder, in order.\<close>

datatype event =
  SetError "jsstring option"
| SetVideoUrl "jsstring option"
| SetProgress js_number
| SetStatus GenerationStatus
| SetIsGenerating bool
| SetHeadlines "Headline list"
| RevokeObjectURL jsstring
| ConsoleError thrown
| Load
| DeleteFile jsstring
| WriteFile jsstring bytes
| Exec "jsstring list"
| ReadFile jsstring

text \<open>
  A step of the run gives the events it caused and then a value, a thrown value, or
  nothing at all when a promise it awaits never settles.
\<close>

datatype 'a outcome = Ok 'a | Throw thrown | Hang

type_synonym 'a run = "event list \<times> 'a outcome"

definition emit :: "event list \<Rightarrow> unit run" where
  "emit es = (es, Ok ())"

definition throw :: "thrown \<Rightarrow> 'a run" where
  "throw e = ([], Throw e)"

definition await :: "thrown + 'a \<Rightarrow> 'a run" where
  "await r = (case r of Inl e \<Rightarrow> ([], Throw e) | Inr v \<Rightarrow> ([], Ok v))"

definition bind_run :: "'a run \<Rightarrow> ('a \<Rightarrow> 'b run) \<Rightarrow> 'b run" where
  "bind_run m f =
     (case m of
        (es, Ok v) \<Rightarrow> (case f v of (es', r) \<Rightarrow> (es @ es', r))
      | (es, Throw e) \<Rightarrow> (es, Throw e)
      | (es, Hang) \<Rightarrow> (es, Hang))"

text \<open>
  \<open>Promise.all\<close> over promises that settle in the order \<open>order\<close> (a list of indices): it
  rejects with the first rejection, stores each value at the index of its promise, and
  fulfils with the stored values once every index has one.  It stays pending (\<open>None\<close>) if
  the settlements end before that.  Over no promise at all it fulfils with \<open>[]\<close>.
\<close>

fun promise_all_loop ::
  "(thrown + 'a) list \<Rightarrow> 'a option list \<Rightarrow> nat list \<Rightarrow> (thrown + 'a list) option" where
  "promise_all_loop results vals [] = None"
| "promise_all_loop results vals (i # order) =
     (if i \<ge> length results then promise_all_loop results vals order
      else
        (case results ! i of
           Inl e \<Rightarrow> Some (Inl e)
         | Inr v \<Rightarrow>
             (case those (vals[i := Some v]) of
                Some vs \<Rightarrow> Some (Inr vs)
              | None \<Rightarrow> promise_all_loop results (vals[i := Some v]) order)))"

definition promise_all :: "(thrown + 'a) list \<Rightarrow> nat list \<Rightarrow> (thrown + 'a list) option" where
  "promise_all results order =
     (if results = [] then Some (Inr [])
      else promise_all_loop results (replicate (length results) None) order)"

record dir_entry =
  entry_name :: jsstring
  isDir :: bool

datatype file_data = Binary bytes | Text jsstring

record payload =
  payload_headlines :: "Headline list option"
  payload_error :: "jsstring option"

record headlines_response =
  resp_ok :: bool
  resp_json :: "thrown + payload"

text \<open>
  What the world answers during one run: the reference to the previous video, the
  response of \<open>/api/headlines\<close>, the encoder (whether it is loaded, what \<open>load\<close>, \<open>listDir\<close>,
  \<open>writeFile\<close>, \<open>exec\<close> and \<open>readFile\<close> do, and the progress events \<open>exec\<close> emits), the canvas,
  and the order in which the renders of the frames complete.
\<close>

record run_env =
  videoUrlRef :: "jsstring option"
  headlines_fetch :: "thrown + headlines_response"
  ffmpeg_loaded :: bool
  ffmpeg_load :: "thrown + unit"
  listDir :: "thrown + dir_entry list"
  canvas :: canvas_env
  completion_order :: "nat list"
  writeFile :: "jsstring \<Rightarrow> bytes \<Rightarrow> thrown + unit"
  exec_progress :: "js_number option list"
  exec_result :: "thrown + unit"
  readFile :: "thrown + file_data"
  utf8_encode :: "jsstring \<Rightarrow> bytes"
  createObjectURL :: "bytes \<Rightarrow> jsstring"

definition NO_HEADLINES :: jsstring where
  "NO_HEADLINES =
     [2310, 2332, 32, 2325, 2375, 32, 2354, 2367, 2319, 32, 2325, 2379, 2312, 32, 2360, 2369,
      2352, 2381, 2326, 2364, 2367, 2351, 2366, 2305, 32, 2313, 2346, 2354, 2348, 2381, 2343,
      32, 2344, 2361, 2368, 2306, 32, 2361, 2376, 2306, 2404]"

definition SOMETHING_WRONG :: jsstring where
  "SOMETHING_WRONG =
     [2325, 2369, 2331, 32, 2327, 2354, 2340, 32, 2361, 2369, 2310, 44, 32, 2325, 2371, 2346,
      2351, 2366, 32, 2346, 2369, 2344, 2307, 32, 2346, 2381, 2352, 2351, 2366, 2360, 32, 2325,
      2352, 2375, 2306, 2404]"

text \<open>Lines 236 to 247: the request, and the list \<open>fetched\<close> or the error thrown.\<close>

definition fetch_headlines :: "run_env \<Rightarrow> Headline list run" where
  "fetch_headlines env =
     bind_run (await (headlines_fetch env)) (\<lambda>response.
       if \<not> resp_ok response
       then throw (ErrorObj
              (case resp_json response of
                 Inl e \<Rightarrow> ascii ''Headlines fetch failed''
               | Inr p \<Rightarrow>
                   (case payload_error p of
                      None \<Rightarrow> ascii ''Headlines fetch failed''
                    | Some msg \<Rightarrow> msg)))
       else
         bind_run (await (resp_json response)) (\<lambda>p.
           let fetched = (case payload_headlines p of None \<Rightarrow> [] | Some hs \<Rightarrow> hs)
           in if fetched = [] then throw (ErrorObj NO_HEADLINES) else ([], Ok fetched)))"

text \<open>
  The progress handler the encoder calls (lines 183 to 187); \<open>None\<close> is an event whose
  \<open>progress\<close> is no number.  \<open>NaN\<close> and the infinities are numbers for \<open>typeof\<close>.
\<close>

fun progress_handler :: "js_number option \<Rightarrow> event list" where
  "progress_handler None = []"
| "progress_handler (Some raw) =
     [SetProgress (Math_min (Finite 100) (Math_round (js_mult raw (Finite 100))))]"

definition ensureFfmpeg :: "run_env \<Rightarrow> unit run" where
  "ensureFfmpeg env =
     (if \<not> ffmpeg_loaded env
      then bind_run (emit [Load]) (\<lambda>_. await (ffmpeg_load env))
      else ([], Ok ()))"

definition cleanupFfmpegFiles :: "run_env \<Rightarrow> unit run" where
  "cleanupFfmpegFiles env =
     (case listDir env of
        Inl e \<Rightarrow> ([], Ok ())
      | Inr entries \<Rightarrow>
          emit (map (\<lambda>entry. DeleteFile (entry_name entry))
                  (filter (\<lambda>entry. \<not> isDir entry
                             \<and> (take 5 (entry_name entry) = ascii ''frame''
                                  \<or> entry_name entry = ascii ''output.mp4''))
                     entries)))"

text \<open>Lines 256 to 258: one \<open>createFrame\<close> for each headline with its index, awaited together.\<close>

definition render_frames :: "run_env \<Rightarrow> Headline list \<Rightarrow> Frame list run" where
  "render_frames env fetched =
     (case promise_all
             (map (\<lambda>(index, item). createFrame (canvas env) item index (length fetched))
                (enumerate 0 fetched))
             (completion_order env) of
        None \<Rightarrow> ([], Hang)
      | Some (Inl e) \<Rightarrow> ([], Throw e)
      | Some (Inr frames) \<Rightarrow> ([], Ok frames))"

text \<open>Lines 262 to 264: the frames are written one after the other, until a write throws.\<close>

fun write_frames :: "run_env \<Rightarrow> Frame list \<Rightarrow> unit run" where
  "write_frames env [] = ([], Ok ())"
| "write_frames env (frame # frames) =
     bind_run (emit [WriteFile (name frame) (data frame)]) (\<lambda>_.
     bind_run (await (writeFile env (name frame) (data frame))) (\<lambda>_.
       write_frames env frames))"

definition EXEC_ARGS :: "jsstring list" where
  "EXEC_ARGS = map ascii
     [''-framerate'', ''1/3'', ''-start_number'', ''0'', ''-i'', ''frame%03d.png'', ''-c:v'',
      ''libx264'', ''-r'', ''30'', ''-pix_fmt'', ''yuv420p'', ''-movflags'', ''+faststart'',
      ''output.mp4'']"

definition exec_ffmpeg :: "run_env \<Rightarrow> unit run" where
  "exec_ffmpeg env =
     bind_run (emit (Exec EXEC_ARGS # concat (map progress_handler (exec_progress env)))) (\<lambda>_.
       await (exec_result env))"

text \<open>Lines 288 to 301: the video is read back and an object URL is made for it.\<close>

definition read_back :: "run_env \<Rightarrow> unit run" where
  "read_back env =
     bind_run (emit [ReadFile (ascii ''output.mp4'')]) (\<lambda>_.
     bind_run (await (readFile env)) (\<lambda>d.
       emit [SetVideoUrl
               (Some (createObjectURL env
                  (case d of Binary b \<Rightarrow> b | Text s \<Rightarrow> utf8_encode env s)))]))"

text \<open>The body of the \<open>try\<close> (lines 236 to 303).\<close>

definition try_block :: "run_env \<Rightarrow> unit run" where
  "try_block env =
     bind_run (fetch_headlines env) (\<lambda>fetched.
     bind_run (emit [SetHeadlines fetched, SetStatus Rendering, SetProgress (Finite 15)]) (\<lambda>_.
     bind_run (ensureFfmpeg env) (\<lambda>_.
     bind_run (cleanupFfmpegFiles env) (\<lambda>_.
     bind_run (render_frames env fetched) (\<lambda>frames.
     bind_run (emit [SetProgress (Finite 40)]) (\<lambda>_.
     bind_run (write_frames env frames) (\<lambda>_.
     bind_run (emit [SetProgress (Finite 55)]) (\<lambda>_.
     bind_run (exec_ffmpeg env) (\<lambda>_.
     bind_run (emit [SetProgress (Finite 85)]) (\<lambda>_.
     bind_run (read_back env) (\<lambda>_.
       emit [SetProgress (Finite 100), SetStatus Done])))))))))))"

text \<open>
  \<open>handleGenerate\<close> (lines 223 to 313): the resets, the \<open>try\<close>, and on a thrown value the
  \<open>catch\<close>; \<open>finally\<close> runs in both cases.  A run that hangs does nothing more.
\<close>

definition handleGenerate :: "run_env \<Rightarrow> event list" where
  "handleGenerate env =
     [SetError None, SetVideoUrl None]
     @ (case videoUrlRef env of None \<Rightarrow> [] | Some url \<Rightarrow> [RevokeObjectURL url])
     @ [SetProgress (Finite 0), SetStatus Fetching, SetIsGenerating True, SetProgress (Finite 5)]
     @ (case try_block env of
          (es, Ok u) \<Rightarrow> es @ [SetIsGenerating False]
        | (es, Throw e) \<Rightarrow>
            es @ [ConsoleError e,
                  SetError (Some (case e of ErrorObj msg \<Rightarrow> msg | OtherThrown \<Rightarrow> SOMETHING_WRONG)),
                  SetStatus Error,
                  SetIsGenerating False]
        | (es, Hang) \<Rightarrow> es)"

text \<open>Readings of a trace: the progress values, the statuses, the files written, the error.\<close>

fun progress_updates :: "event list \<Rightarrow> js_number list" where
  "progress_updates [] = []"
| "progress_updates (SetProgress p # es) = p # progress_updates es"
| "progress_updates (e # es) = progress_updates es"

fun status_updates :: "event list \<Rightarrow> GenerationStatus list" where
  "status_updates [] = []"
| "status_updates (SetStatus s # es) = s # status_updates es"
| "status_updates (e # es) = status_updates es"

fun error_updates :: "event list \<Rightarrow> jsstring option list" where
  "error_updates [] = []"
| "error_updates (SetError s # es) = s # error_updates es"
| "error_updates (e # es) = error_updates es"

fun written_files :: "event list \<Rightarrow> (jsstring \<times> bytes) list" where
  "written_files [] = []"
| "written_files (WriteFile n d # es) = (n, d) # written_files es"
| "written_files (e # es) = written_files es"

text \<open>The encoder's progress events of a run, as the values the handler sets.\<close>

definition encoder_percentages :: "run_env \<Rightarrow> js_number list" where
  "encoder_percentages env = progress_updates (concat (map progress_handler (exec_progress env)))"

text \<open>
  That the progress values of a step are an initial part of a list, and the whole list
  when the step returns.
\<close>

definition progress_within :: "'a run \<Rightarrow> js_number list \<Rightarrow> bool" where
  "progress_within r L \<longleftrightarrow>
     (\<exists>k. progress_updates (fst r) = take k L)
     \<and> (\<forall>v. snd r = Ok v \<longrightarrow> progress_updates (fst r) = L)"

text \<open>
  Example worlds.  In \<open>demo_env\<close> the feed has the two headlines \<open>A\<close> and \<open>B\<close> and every call
  succeeds; the completion order of the renders and the encoder's progress events are
  left open.  In \<open>empty_feed_env\<close> the request succeeds with an empty list.
\<close>

definition demo_canvas :: canvas_env where
  "demo_canvas =
     \<lparr> getContext = (\<lambda>index. True),
       measureText = (\<lambda>font. ten_per_unit),
       parse_date = (\<lambda>v. None),
       format_date = (\<lambda>t. []),
       toPng = (\<lambda>ops. Inr [of_nat (length ops)]) \<rparr>"

definition demo_headlines :: "Headline list" where
  "demo_headlines =
     [\<lparr> title = ascii ''A'', link = [], publishedAt = [], description = [] \<rparr>,
      \<lparr> title = ascii ''B'', link = [], publishedAt = [], description = [] \<rparr>]"

definition demo_env :: "nat list \<Rightarrow> js_number option list \<Rightarrow> run_env" where
  "demo_env order events =
     \<lparr> videoUrlRef = None,
       headlines_fetch =
         Inr \<lparr> resp_ok = True,
               resp_json = Inr \<lparr> payload_headlines = Some demo_headlines, payload_error = None \<rparr> \<rparr>,
       ffmpeg_loaded = False,
       ffmpeg_load = Inr (),
       listDir = Inr [],
       canvas = demo_canvas,
       completion_order = order,
       writeFile = (\<lambda>n d. Inr ()),
       exec_progress = events,
       exec_result = Inr (),
       readFile = Inr (Binary []),
       utf8_encode = (\<lambda>s. []),
       createObjectURL = (\<lambda>b. ascii ''blob:video'') \<rparr>"

definition empty_feed_env :: run_env where
  "empty_feed_env =
     (demo_env [] [])
       \<lparr> headlines_fetch :=
           Inr \<lparr> resp_ok = True,
                 resp_json = Inr \<lparr> payload_headlines = Some [], payload_error = None \<rparr> \<rparr> \<rparr>"

definition FRAME_NAMES :: "jsstring list" where
  "FRAME_NAMES =
     map ascii [''frame000.png'', ''frame001.png'', ''frame002.png'', ''frame003.png'',
                ''frame004.png'', ''frame005.png'']"

section \<open>Evaluating the double-precision functions\<close>

lemma floor_numeral_div:
  "\<lfloor>(numeral a :: rat) / numeral b\<rfloor> = numeral a div numeral b"
  using floor_divide_of_int_eq [of "numeral a" "numeral b", where ?'a = rat] by simp

lemma ceiling_numeral_div:
  "\<lceil>(numeral a :: rat) / numeral b\<rceil> = - (- numeral a div numeral b)"
  using floor_divide_of_int_eq [of "- numeral a" "numeral b", where ?'a = rat]
  by (simp add: ceiling_def)

lemma floor_one_div:
  "\<lfloor>(1 :: rat) / numeral b\<rfloor> = 1 div numeral b"
  using floor_divide_of_int_eq [of 1 "numeral b", where ?'a = rat] by simp

lemma ceiling_one_div:
  "\<lceil>(1 :: rat) / numeral b\<rceil> = - (- 1 div numeral b)"
  using floor_divide_of_int_eq [of "- 1" "numeral b", where ?'a = rat]
  by (simp add: ceiling_def)

lemmas double_eval =
  to_double_def binade_def pow2_def round_half_even_def bit_length.simps Let_def
  floor_numeral_div ceiling_numeral_div floor_one_div ceiling_one_div

text \<open>
  Products that are doubles themselves are exact; the double nearest to one tenth is not
  one tenth; and the double written \<open>0.015\<close>, times 100, is rounded up to 1.5 exactly, so
  that the handler sets 2 for it.
\<close>

lemma to_double_examples:
  "to_double (1 / 2 * 100) = Finite 50"
  "to_double (1 * 100) = Finite 100"
  "to_double (1 / 10) = Finite (3602879701896397 / 36028797018963968)"
  "to_double (1080863910568919 / 72057594037927936 * 100) = Finite (3 / 2)"
  by (simp_all add: double_eval)

lemma progress_handler_examples:
  "progress_handler (Some (Finite 0)) = [SetProgress (Finite 0)]"
  "progress_handler (Some (Finite (1 / 2))) = [SetProgress (Finite 50)]"
  "progress_handler (Some (Finite 1)) = [SetProgress (Finite 100)]"
  "progress_handler (Some (Finite (1080863910568919 / 72057594037927936))) = [SetProgress (Finite 2)]"
  "progress_handler (Some (Finite 2)) = [SetProgress (Finite 100)]"
  "progress_handler (Some NaN) = [SetProgress NaN]"
  "progress_handler None = []"
  by (simp_all add: double_eval)

section \<open>Properties of the string functions\<close>

lemma is_ws_simps [simp]: "is_ws 32" "\<not> is_ws 60" "\<not> is_ws 62" "\<not> is_ws 8230"
  by (simp_all add: is_ws_def)

lemma has_tag_iff:
  "has_tag s \<longleftrightarrow> (\<exists>xs X ys. s = xs @ 60 # X @ 62 # ys \<and> X \<noteq> [] \<and> 62 \<notin> set X)"
proof
  assume "has_tag s"
  then show "\<exists>xs X ys. s = xs @ 60 # X @ 62 # ys \<and> X \<noteq> [] \<and> 62 \<notin> set X"
  proof (induction s)
    case Nil
    then show ?case by simp
  next
    case (Cons c cs)
    show ?case
    proof (cases "c = 60 \<and> takeWhile (\<lambda>d. d \<noteq> 62) cs \<noteq> [] \<and> dropWhile (\<lambda>d. d \<noteq> 62) cs \<noteq> []")
      case True
      let ?X = "takeWhile (\<lambda>d. d \<noteq> 62) cs"
      let ?R = "dropWhile (\<lambda>d. d \<noteq> 62) cs"
      from True have "hd ?R = 62" using hd_dropWhile [of "\<lambda>d. d \<noteq> 62" cs] by simp
      with True have R: "?R = 62 # tl ?R" by (cases ?R) auto
      have "cs = ?X @ ?R" by simp
      with R have "c # cs = [] @ 60 # ?X @ 62 # tl ?R" using True by simp
      moreover have "62 \<notin> set ?X" using set_takeWhileD by fastforce
      ultimately show ?thesis using True by blast
    next
      case False
      with Cons.prems have "has_tag cs" by auto
      from Cons.IH [OF this] obtain xs X ys
        where "cs = xs @ 60 # X @ 62 # ys" "X \<noteq> []" "62 \<notin> set X" by blast
      then have "c # cs = (c # xs) @ 60 # X @ 62 # ys" by simp
      with \<open>X \<noteq> []\<close> \<open>62 \<notin> set X\<close> show ?thesis by blast
    qed
  qed
next
  assume "\<exists>xs X ys. s = xs @ 60 # X @ 62 # ys \<and> X \<noteq> [] \<and> 62 \<notin> set X"
  then obtain xs X ys where s: "s = xs @ 60 # X @ 62 # ys" and X: "X \<noteq> []" "62 \<notin> set X"
    by blast
  have tw: "takeWhile (\<lambda>d. d \<noteq> 62) (X @ 62 # ys) = X"
    using X(2) by (induction X) auto
  have dw: "dropWhile (\<lambda>d. d \<noteq> 62) (X @ 62 # ys) = 62 # ys"
    using X(2) by (induction X) auto
  have "has_tag (xs @ 60 # X @ 62 # ys)"
    by (induction xs) (use tw dw X in auto)
  with s show "has_tag s" by simp
qed


lemma set_strip_tags: "set (strip_tags s) \<subseteq> insert 32 (set s)"
proof (induction s rule: strip_tags.induct)
  case 1
  then show ?case by simp
next
  case (2 c cs)
  have "set (tl (dropWhile (\<lambda>d. d \<noteq> 62) cs)) \<subseteq> set cs"
    using set_dropWhileD [of _ "\<lambda>d. d \<noteq> 62" cs]
    by (cases "dropWhile (\<lambda>d. d \<noteq> 62) cs") (auto simp del: dropWhile_eq_Nil_conv)
  with 2 show ?case by (auto split: if_splits)
qed

lemma set_collapse_ws: "set (collapse_ws s) \<subseteq> insert 32 (set s)"
proof (induction s rule: collapse_ws.induct)
  case 1
  then show ?case by simp
next
  case (2 c cs)
  have "set (dropWhile is_ws cs) \<subseteq> set cs"
    by (meson set_dropWhileD subsetI)
  with 2 show ?case by (auto split: if_splits)
qed

lemma no_gt_no_tag_head:
  "62 \<notin> set s \<Longrightarrow> dropWhile (\<lambda>d. d \<noteq> 62) s = []"
  by (induction s) auto

lemma has_tag_strip_tags: "\<not> has_tag (strip_tags s)"
proof (induction s rule: strip_tags.induct)
  case 1
  then show ?case by simp
next
  case (2 c cs)
  show ?case
  proof (cases "c = 60 \<and> takeWhile (\<lambda>d. d \<noteq> 62) cs \<noteq> [] \<and> dropWhile (\<lambda>d. d \<noteq> 62) cs \<noteq> []")
    case True
    with 2 show ?thesis by simp
  next
    case False
    from False 2 have IH: "\<not> has_tag (strip_tags cs)" by simp
    have "takeWhile (\<lambda>d. d \<noteq> 62) (strip_tags cs) = [] \<or> dropWhile (\<lambda>d. d \<noteq> 62) (strip_tags cs) = []"
      if "c = 60"
    proof (cases "takeWhile (\<lambda>d. d \<noteq> 62) cs = []")
      case True
      then have "cs = [] \<or> (\<exists>r. cs = 62 # r)" by (cases cs) (auto split: if_splits)
      then show ?thesis by auto
    next
      case nonempty: False
      with False that have "dropWhile (\<lambda>d. d \<noteq> 62) cs = []" by blast
      then have "62 \<notin> set cs" by auto
      with set_strip_tags [of cs] have "62 \<notin> set (strip_tags cs)" by auto
      then show ?thesis by (simp add: no_gt_no_tag_head)
    qed
    with False IH show ?thesis by auto
  qed
qed

lemma strip_tags_id: "\<not> has_tag s \<Longrightarrow> strip_tags s = s"
  by (induction s) auto

lemma has_tag_suffix: "has_tag ys \<Longrightarrow> has_tag (xs @ ys)"
  by (induction xs) auto

lemma has_tag_prefix: "has_tag xs \<Longrightarrow> has_tag (xs @ ys)"
proof -
  assume "has_tag xs"
  then obtain p X q where "xs = p @ 60 # X @ 62 # q" "X \<noteq> []" "62 \<notin> set X"
    unfolding has_tag_iff by blast
  then have "xs @ ys = p @ 60 # X @ 62 # (q @ ys) \<and> X \<noteq> [] \<and> 62 \<notin> set X" by simp
  then show ?thesis unfolding has_tag_iff by blast
qed

lemma has_tag_dropWhile: "has_tag (dropWhile P s) \<Longrightarrow> has_tag s"
  using has_tag_suffix [of "dropWhile P s" "takeWhile P s"] by simp

lemma has_tag_collapse_ws: "\<not> has_tag s \<Longrightarrow> \<not> has_tag (collapse_ws s)"
proof (induction s rule: collapse_ws.induct)
  case 1
  then show ?case by simp
next
  case (2 c cs)
  show ?case
  proof (cases "is_ws c")
    case True
    from "2.prems" have "\<not> has_tag cs" by auto
    then have "\<not> has_tag (dropWhile is_ws cs)" using has_tag_dropWhile by blast
    with True 2 show ?thesis by simp
  next
    case False
    from "2.prems" have ncs: "\<not> has_tag cs" by auto
    with False 2 have IH: "\<not> has_tag (collapse_ws cs)" by simp
    have "takeWhile (\<lambda>d. d \<noteq> 62) (collapse_ws cs) = [] \<or> dropWhile (\<lambda>d. d \<noteq> 62) (collapse_ws cs) = []"
      if "c = 60"
    proof (cases "takeWhile (\<lambda>d. d \<noteq> 62) cs = []")
      case True
      then have "cs = [] \<or> (\<exists>r. cs = 62 # r)" by (cases cs) (auto split: if_splits)
      then show ?thesis by auto
    next
      case nonempty: False
      with "2.prems" that have "dropWhile (\<lambda>d. d \<noteq> 62) cs = []"
        unfolding has_tag.simps by blast
      then have "62 \<notin> set cs" by auto
      with set_collapse_ws [of cs] have "62 \<notin> set (collapse_ws cs)" by auto
      then show ?thesis by (simp add: no_gt_no_tag_head)
    qed
    with False IH show ?thesis by auto
  qed
qed

lemma has_tag_trim: "\<not> has_tag s \<Longrightarrow> \<not> has_tag (trim s)"
proof -
  assume a: "\<not> has_tag s"
  let ?d = "dropWhile is_ws s"
  have d: "\<not> has_tag ?d" using a has_tag_dropWhile by blast
  have "?d = rev (rev ?d)" by simp
  also have "rev ?d = takeWhile is_ws (rev ?d) @ dropWhile is_ws (rev ?d)" by simp
  finally have "?d = trim s @ rev (takeWhile is_ws (rev ?d))"
    by (metis rev_append trim_def)
  with d show ?thesis using has_tag_prefix by metis
qed


lemma single_spaced_Cons:
  "single_spaced (c # x) \<longleftrightarrow>
     (is_ws c \<longrightarrow> c = 32 \<and> (x = [] \<or> \<not> is_ws (hd x))) \<and> single_spaced x"
  by (cases x) auto

lemma collapse_ws_hd:
  "t = [] \<or> \<not> is_ws (hd t) \<Longrightarrow> collapse_ws t = [] \<or> \<not> is_ws (hd (collapse_ws t))"
  by (cases t) auto

lemma single_spaced_collapse_ws: "single_spaced (collapse_ws s)"
proof (induction s rule: collapse_ws.induct)
  case 1
  then show ?case by simp
next
  case (2 c cs)
  show ?case
  proof (cases "is_ws c")
    case True
    let ?t = "dropWhile is_ws cs"
    have "?t = [] \<or> \<not> is_ws (hd ?t)" using hd_dropWhile [of is_ws cs] by blast
    then have "collapse_ws ?t = [] \<or> \<not> is_ws (hd (collapse_ws ?t))" by (rule collapse_ws_hd)
    with True 2 show ?thesis by (simp add: single_spaced_Cons)
  next
    case False
    with 2 show ?thesis by (simp add: single_spaced_Cons)
  qed
qed

lemma collapse_ws_id: "single_spaced s \<Longrightarrow> collapse_ws s = s"
proof (induction s rule: collapse_ws.induct)
  case 1
  then show ?case by simp
next
  case (2 c cs)
  show ?case
  proof (cases "is_ws c")
    case True
    with "2.prems" have c: "c = 32" and h: "cs = [] \<or> \<not> is_ws (hd cs)" and ss: "single_spaced cs"
      by (simp_all add: single_spaced_Cons)
    from h have "dropWhile is_ws cs = cs" by (cases cs) auto
    with True 2 ss c show ?thesis by simp
  next
    case False
    with 2 show ?thesis by (simp add: single_spaced_Cons)
  qed
qed

lemma single_spaced_suffix: "single_spaced (xs @ ys) \<Longrightarrow> single_spaced ys"
  by (induction xs) (auto simp: single_spaced_Cons)

lemma single_spaced_prefix: "single_spaced (xs @ ys) \<Longrightarrow> single_spaced xs"
proof (induction xs)
  case Nil
  then show ?case by simp
next
  case (Cons a xs)
  then show ?case by (cases xs) (auto simp: single_spaced_Cons)
qed

lemma trim_decomp:
  "\<exists>p q. s = p @ trim s @ q"
proof -
  let ?d = "dropWhile is_ws s"
  have "?d = rev (rev ?d)" by simp
  also have "rev ?d = takeWhile is_ws (rev ?d) @ dropWhile is_ws (rev ?d)" by simp
  finally have "?d = trim s @ rev (takeWhile is_ws (rev ?d))"
    by (metis rev_append trim_def)
  moreover have "s = takeWhile is_ws s @ ?d" by simp
  ultimately show ?thesis by metis
qed

lemma single_spaced_trim: "single_spaced s \<Longrightarrow> single_spaced (trim s)"
  using trim_decomp [of s] single_spaced_suffix single_spaced_prefix by metis

lemma trimmed_trim: "trimmed (trim s)"
proof (cases "trim s = []")
  case True
  then show ?thesis by (simp add: trimmed_def)
next
  case False
  let ?d = "dropWhile is_ws s"
  let ?e = "dropWhile is_ws (rev ?d)"
  from False have e: "?e \<noteq> []" by (simp add: trim_def)
  then have "\<not> is_ws (hd ?e)" using hd_dropWhile [of is_ws "rev ?d"] by blast
  moreover have "last (trim s) = hd ?e" using e by (simp add: trim_def last_rev)
  ultimately have l: "\<not> is_ws (last (trim s))" by simp
  from e have d: "?d \<noteq> []" by (cases "?d") (simp_all del: dropWhile_eq_Nil_conv)
  then have hd: "\<not> is_ws (hd ?d)" using hd_dropWhile [of is_ws s] by blast
  have "rev ?d = takeWhile is_ws (rev ?d) @ ?e" by simp
  then have "?d = rev ?e @ rev (takeWhile is_ws (rev ?d))" by (metis rev_append rev_rev_ident)
  then have "hd ?d = hd (rev ?e)" using e by (metis hd_append2 rev_is_Nil_conv)
  with hd have "\<not> is_ws (hd (trim s))" by (simp add: trim_def)
  with l show ?thesis by (simp add: trimmed_def)
qed

lemma trim_id: "trimmed s \<Longrightarrow> trim s = s"
proof (cases "s = []")
  case True
  then show ?thesis by (simp add: trim_def)
next
  case False
  assume "trimmed s"
  with False have h: "\<not> is_ws (hd s)" and l: "\<not> is_ws (last s)" by (simp_all add: trimmed_def)
  from h False have a: "dropWhile is_ws s = s" by (cases s) auto
  from l False have "\<not> is_ws (hd (rev s))" by (simp add: hd_rev)
  with False have "dropWhile is_ws (rev s) = rev s" by (cases "rev s") auto
  with a show ?thesis by (simp add: trim_def)
qed

section \<open>Properties of the wrapping functions\<close>

lemma split_space_nonempty: "split_space s \<noteq> []"
  by (induction s) (auto split: list.splits)

lemma join_space_Cons:
  "join_space (w # ws) = w @ (if ws = [] then [] else 32 # join_space ws)"
  by (cases ws) simp_all

lemma join_split_space: "join_space (split_space s) = s"
proof (induction s)
  case Nil
  then show ?case by simp
next
  case (Cons c cs)
  obtain w ws where sp: "split_space cs = w # ws"
    using split_space_nonempty [of cs] by (cases "split_space cs") auto
  with Cons show ?case by (auto simp: join_space_Cons split: if_splits)
qed

lemma empty_word_tail:
  "[] \<in> set (tl (split_space s)) \<Longrightarrow> (s \<noteq> [] \<and> last s = 32) \<or> \<not> single_spaced s"
proof (induction s)
  case Nil
  then show ?case by simp
next
  case (Cons c cs)
  obtain w ws where sp: "split_space cs = w # ws"
    using split_space_nonempty [of cs] by (cases "split_space cs") auto
  show ?case
  proof (cases "c = 32")
    case True
    with Cons.prems sp have "w = [] \<or> [] \<in> set (tl (split_space cs))" by auto
    then show ?thesis
    proof
      assume "w = []"
      with sp have "cs = [] \<or> hd cs = 32" by (cases cs) (auto split: if_splits list.splits)
      with True show ?thesis by (cases cs) auto
    next
      assume "[] \<in> set (tl (split_space cs))"
      from Cons.IH [OF this] show ?thesis by (cases cs) (auto simp: single_spaced_Cons)
    qed
  next
    case False
    with Cons.prems sp have "[] \<in> set (tl (split_space cs))" by auto
    from Cons.IH [OF this] show ?thesis by (cases cs) (auto simp: single_spaced_Cons)
  qed
qed

lemma empty_word:
  "[] \<in> set (split_space s) \<Longrightarrow> s = [] \<or> hd s = 32 \<or> last s = 32 \<or> \<not> single_spaced s"
proof -
  assume a: "[] \<in> set (split_space s)"
  obtain w ws where sp: "split_space s = w # ws"
    using split_space_nonempty [of s] by (cases "split_space s") auto
  with a have "w = [] \<or> [] \<in> set (tl (split_space s))" by auto
  then show ?thesis
  proof
    assume "w = []"
    with sp show ?thesis by (cases s) (auto split: if_splits list.splits)
  next
    assume "[] \<in> set (tl (split_space s))"
    from empty_word_tail [OF this] show ?thesis by blast
  qed
qed

lemma normalized_words_nonempty:
  assumes "trim (collapse_ws text) \<noteq> []"
  shows "[] \<notin> set (split_space (trim (collapse_ws text)))"
proof
  let ?n = "trim (collapse_ws text)"
  assume "[] \<in> set (split_space ?n)"
  from empty_word [OF this] assms
  have "hd ?n = 32 \<or> last ?n = 32 \<or> \<not> single_spaced ?n" by blast
  moreover have "single_spaced ?n"
    by (simp add: single_spaced_collapse_ws single_spaced_trim)
  moreover have "\<not> is_ws (hd ?n)" "\<not> is_ws (last ?n)"
    using trimmed_trim [of "collapse_ws text"] assms by (simp_all add: trimmed_def)
  ultimately show False by auto
qed

lemma wrap_loop_all_fit:
  assumes "line \<noteq> []"
    and "\<forall>k. 1 \<le> k \<and> k \<le> length ws \<longrightarrow> m (join_space (line # take k ws)) \<le> W"
  shows "wrap_loop m W lines line ws = (lines, join_space (line # ws))"
  using assms
proof (induction ws arbitrary: line)
  case Nil
  then show ?case by simp
next
  case (Cons w ws)
  from Cons.prems(2) have "m (join_space (line # take 1 (w # ws))) \<le> W" by force
  then have fit: "m (line @ 32 # w) \<le> W" by simp
  have "\<forall>k. 1 \<le> k \<and> k \<le> length ws \<longrightarrow> m (join_space ((line @ 32 # w) # take k ws)) \<le> W"
  proof (intro allI impI)
    fix k assume k: "1 \<le> k \<and> k \<le> length ws"
    then have "m (join_space (line # take (Suc k) (w # ws))) \<le> W"
      using Cons.prems(2) by (metis Suc_le_mono le_SucI length_Cons)
    moreover have "take k ws \<noteq> []" using k by auto
    ultimately show "m (join_space ((line @ 32 # w) # take k ws)) \<le> W"
      by (simp add: join_space_Cons)
  qed
  with Cons.IH [of "line @ 32 # w"]
  have "wrap_loop m W lines (line @ 32 # w) ws = (lines, join_space ((line @ 32 # w) # ws))"
    by simp
  moreover have "join_space ((line @ 32 # w) # ws) = join_space (line # w # ws)"
    by (simp add: join_space_Cons)
  ultimately show ?case using fit Cons.prems(1) by (simp add: Let_def)
qed

lemma greedy_lines_all_fit:
  assumes "n \<noteq> []" and "[] \<notin> set (split_space n)"
    and "\<forall>k. 2 \<le> k \<and> k \<le> length (split_space n) \<longrightarrow> m (join_space (take k (split_space n))) \<le> W"
  shows "greedy_lines m W n = [n]"
proof -
  obtain w ws where sp: "split_space n = w # ws"
    using split_space_nonempty [of n] by (cases "split_space n") auto
  with assms(2) have w: "w \<noteq> []" by auto
  have "\<forall>k. 1 \<le> k \<and> k \<le> length ws \<longrightarrow> m (join_space (w # take k ws)) \<le> W"
  proof (intro allI impI)
    fix k assume "1 \<le> k \<and> k \<le> length ws"
    then have "2 \<le> Suc k \<and> Suc k \<le> length (split_space n)" using sp by simp
    with assms(3) have "m (join_space (take (Suc k) (split_space n))) \<le> W" by blast
    then show "m (join_space (w # take k ws)) \<le> W" using sp by simp
  qed
  from wrap_loop_all_fit [OF w this]
  have "wrap_loop m W [] w ws = ([], join_space (w # ws))" .
  moreover have "wrap_loop m W [] [] (w # ws) = wrap_loop m W [] w ws" by (simp add: Let_def)
  moreover have "join_space (w # ws) = n" using join_split_space [of n] sp by simp
  ultimately show ?thesis using assms(1) sp by (simp add: greedy_lines_def)
qed

lemma bound_lines_single: "bound_lines m W maxLines [l] = [l]"
  by (simp add: bound_lines_def Let_def)

declare truncate_line.simps [simp del]

lemma truncate_line_result:
  "(m (truncate_line m W l @ [8230]) \<le> W \<or> truncate_line m W l = [])
   \<and> (\<exists>n. truncate_line m W l = take n l)"
proof (induction m W l rule: truncate_line.induct)
  case (1 m W l)
  show ?case
  proof (cases "m (l @ [8230]) > W \<and> l \<noteq> []")
    case True
    then have eq: "truncate_line m W l = truncate_line m W (butlast l)"
      by (subst truncate_line.simps) simp
    from 1 True obtain n where n: "truncate_line m W (butlast l) = take n (butlast l)"
      by blast
    have "take n (butlast l) = take (min n (length l - 1)) l"
      by (simp add: butlast_conv_take min.commute)
    with n eq have "\<exists>k. truncate_line m W l = take k l" by metis
    with 1 True eq show ?thesis by simp
  next
    case False
    then have eq: "truncate_line m W l = l"
      by (subst truncate_line.simps) auto
    have "l = take (length l) l" by simp
    with eq have "\<exists>k. truncate_line m W l = take k l" by metis
    with False eq show ?thesis by auto
  qed
qed

lemma drawn_texts_draw_lines: "drawn_texts (snd (draw_lines x y h ls)) = ls"
proof (induction ls arbitrary: y)
  case Nil
  then show ?case by simp
next
  case (Cons l ls)
  from Cons [of "y + h"] show ?case
    by (cases "draw_lines x (y + h) h ls") simp
qed

lemma greedy_lines_empty: "greedy_lines m W [] = []"
  by (simp add: greedy_lines_def Let_def)

lemma bound_lines_overflow:
  assumes "length lines = Suc k" and "1 \<le> k"
  shows "bound_lines m W (of_nat k) lines
           = (take k lines)[k - 1 := truncate_line m W (lines ! (k - 1)) @ [8230]]"
proof -
  have limit: "nat (max 1 \<lfloor>(of_nat k :: rat)\<rfloor>) = k" using assms(2) by simp
  have len: "length (take k lines) = k" using assms(1) by simp
  have ne: "take k lines \<noteq> []" using assms by auto
  have "last (take k lines) = take k lines ! (k - 1)" using ne len by (simp add: last_conv_nth)
  also have "\<dots> = lines ! (k - 1)" using assms(2) by simp
  finally have l: "last (take k lines) = lines ! (k - 1)" .
  show ?thesis unfolding bound_lines_def Let_def limit using assms(1) ne l len by simp
qed

lemma wrap_overflow:
  assumes "length (greedy_lines m maxWidth (trim (collapse_ws text))) = Suc k" and "1 \<le> k"
  shows "drawn_texts (snd (wrapHeadlineText m text x y maxWidth lineHeight (of_nat k)))
           = (take k (greedy_lines m maxWidth (trim (collapse_ws text))))
               [k - 1 := truncate_line m maxWidth
                           (greedy_lines m maxWidth (trim (collapse_ws text)) ! (k - 1)) @ [8230]]"
proof -
  have "trim (collapse_ws text) \<noteq> []" using assms(1) greedy_lines_empty by force
  then show ?thesis
    by (simp add: wrapHeadlineText_def Let_def drawn_texts_draw_lines
        bound_lines_overflow [OF assms])
qed

section \<open>Properties of the run\<close>

lemma toString_digit: "n < 10 \<Longrightarrow> toString n = [of_nat (48 + n)]"
  by (subst toString.simps) simp

lemma frame_name_small:
  "i < 6 \<Longrightarrow> frame_name i
     = map ascii [''frame000.png'', ''frame001.png'', ''frame002.png'', ''frame003.png'',
                  ''frame004.png'', ''frame005.png''] ! i"
proof -
  assume "i < 6"
  then consider "i = 0" | "i = 1" | "i = 2" | "i = 3" | "i = 4" | "i = 5" by linarith
  then show ?thesis
    by cases (simp_all add: frame_name_def toString_digit padStart_def ascii_def numeral_2_eq_2)
qed

lemma those_eq_Some: "those xs = Some vs \<Longrightarrow> xs = map Some vs"
  by (induction xs arbitrary: vs) (auto split: option.splits)

lemma those_None: "those xs = None \<Longrightarrow> None \<in> set xs"
  by (induction xs) (auto split: option.splits)

lemma promise_all_loop_fulfilled:
  assumes "length vals = length vs"
    and "\<forall>j < length vs. vals ! j = None \<or> vals ! j = Some (vs ! j)"
    and "\<forall>j < length vs. vals ! j = None \<longrightarrow> j \<in> set order"
    and "None \<in> set vals"
  shows "promise_all_loop (map Inr vs) vals order = Some (Inr vs)"
  using assms
proof (induction order arbitrary: vals)
  case Nil
  from Nil(4) obtain j where "j < length vals" "vals ! j = None" by (metis in_set_conv_nth)
  with Nil(1,3) have False by auto
  then show ?case ..
next
  case (Cons i order)
  show ?case
  proof (cases "i \<ge> length vs")
    case True
    have "\<forall>j < length vs. vals ! j = None \<longrightarrow> j \<in> set order"
      using Cons.prems(3) True by auto
    with Cons.IH [of vals] Cons.prems True show ?thesis by simp
  next
    case False
    let ?v = "vals[i := Some (vs ! i)]"
    have inv: "\<forall>j < length vs. ?v ! j = None \<or> ?v ! j = Some (vs ! j)"
      using Cons.prems(1,2) False by (auto simp: nth_list_update)
    show ?thesis
    proof (cases "those ?v")
      case None
      then have n: "None \<in> set ?v" by (rule those_None)
      have "\<forall>j < length vs. ?v ! j = None \<longrightarrow> j \<in> set order"
        using Cons.prems(1,3) False by (auto simp: nth_list_update split: if_splits)
      with Cons.IH [of ?v] Cons.prems(1) inv n
      have "promise_all_loop (map Inr vs) ?v order = Some (Inr vs)" by simp
      with None False show ?thesis by simp
    next
      case (Some ws)
      then have "?v = map Some ws" by (rule those_eq_Some)
      moreover have "length ws = length vs" using calculation Cons.prems(1)
        by (metis length_list_update length_map)
      ultimately have "ws = vs" using inv
        by (metis nth_equalityI nth_map option.distinct(1) option.inject)
      with Some False show ?thesis by simp
    qed
  qed
qed

lemma promise_all_fulfilled:
  assumes "{..<length vs} \<subseteq> set order"
  shows "promise_all (map Inr vs) order = Some (Inr vs)"
proof (cases "vs = []")
  case True
  then show ?thesis by (simp add: promise_all_def)
next
  case False
  have "promise_all_loop (map Inr vs) (replicate (length vs) None) order = Some (Inr vs)"
    using assms False by (intro promise_all_loop_fulfilled) auto
  with False show ?thesis by (simp add: promise_all_def)
qed

lemma bind_run_simps [simp]:
  "bind_run (es, Ok v) f = (es @ fst (f v), snd (f v))"
  "bind_run (es, Throw e) f = (es, Throw e)"
  "bind_run (es, Hang) f = (es, Hang)"
  by (simp_all add: bind_run_def split: prod.splits)

lemma fst_bind_run:
  "fst (bind_run m f) = fst m @ (case snd m of Ok v \<Rightarrow> fst (f v) | Throw e \<Rightarrow> [] | Hang \<Rightarrow> [])"
  by (cases m; cases "snd m") auto

lemma snd_bind_run:
  "snd (bind_run m f) = (case snd m of Ok v \<Rightarrow> snd (f v) | Throw e \<Rightarrow> Throw e | Hang \<Rightarrow> Hang)"
  by (cases m; cases "snd m") auto

lemma progress_updates_append:
  "progress_updates (xs @ ys) = progress_updates xs @ progress_updates ys"
  by (induction xs rule: progress_updates.induct) auto

lemma status_updates_append:
  "status_updates (xs @ ys) = status_updates xs @ status_updates ys"
  by (induction xs rule: status_updates.induct) auto

lemma error_updates_append:
  "error_updates (xs @ ys) = error_updates xs @ error_updates ys"
  by (induction xs rule: error_updates.induct) auto

lemma written_files_append:
  "written_files (xs @ ys) = written_files xs @ written_files ys"
  by (induction xs rule: written_files.induct) auto

lemma fetch_headlines_empty:
  assumes "headlines_fetch env = Inr response" and "resp_ok response"
    and "resp_json response = Inr p"
    and "payload_headlines p = None \<or> payload_headlines p = Some []"
  shows "fetch_headlines env = ([], Throw (ErrorObj NO_HEADLINES))"
  using assms by (auto simp: fetch_headlines_def await_def throw_def Let_def)

lemma fetch_headlines_some:
  assumes "headlines_fetch env = Inr response" and "resp_ok response"
    and "resp_json response = Inr p"
    and "payload_headlines p = Some fetched" and "fetched \<noteq> []"
  shows "fetch_headlines env = ([], Ok fetched)"
  using assms by (auto simp: fetch_headlines_def await_def throw_def Let_def)

lemma progress_within_bind:
  assumes "progress_within m L1" and "\<And>v. progress_within (f v) L2"
  shows "progress_within (bind_run m f) (L1 @ L2)"
proof (cases "snd m")
  case (Ok v)
  with assms(1) have m: "progress_updates (fst m) = L1" by (simp add: progress_within_def)
  from assms(2) [of v] obtain k where k: "progress_updates (fst (f v)) = take k L2"
    and full: "\<forall>w. snd (f v) = Ok w \<longrightarrow> progress_updates (fst (f v)) = L2"
    unfolding progress_within_def by blast
  have "progress_updates (fst (bind_run m f)) = L1 @ take k L2"
    using Ok m k by (simp add: fst_bind_run progress_updates_append)
  moreover have "L1 @ take k L2 = take (length L1 + k) (L1 @ L2)" by simp
  ultimately have "\<exists>j. progress_updates (fst (bind_run m f)) = take j (L1 @ L2)" by metis
  moreover have "\<forall>w. snd (bind_run m f) = Ok w \<longrightarrow> progress_updates (fst (bind_run m f)) = L1 @ L2"
    using Ok m full by (simp add: fst_bind_run snd_bind_run progress_updates_append)
  ultimately show ?thesis by (simp add: progress_within_def)
next
  case (Throw e)
  from assms(1) obtain k where "progress_updates (fst m) = take k L1"
    by (auto simp: progress_within_def)
  then have "progress_updates (fst (bind_run m f)) = take (min k (length L1)) (L1 @ L2)"
    using Throw by (simp add: fst_bind_run min_def)
  then have "\<exists>j. progress_updates (fst (bind_run m f)) = take j (L1 @ L2)" by metis
  then show ?thesis using Throw by (simp add: progress_within_def snd_bind_run)
next
  case Hang
  from assms(1) obtain k where "progress_updates (fst m) = take k L1"
    by (auto simp: progress_within_def)
  then have "progress_updates (fst (bind_run m f)) = take (min k (length L1)) (L1 @ L2)"
    using Hang by (simp add: fst_bind_run min_def)
  then have "\<exists>j. progress_updates (fst (bind_run m f)) = take j (L1 @ L2)" by metis
  then show ?thesis using Hang by (simp add: progress_within_def snd_bind_run)
qed

lemma progress_within_silent:
  "progress_updates (fst r) = [] \<Longrightarrow> progress_within r []"
  by (simp add: progress_within_def)

lemma progress_within_emit:
  "progress_within (emit es) (progress_updates es)"
proof -
  have "progress_updates es = take (length (progress_updates es)) (progress_updates es)" by simp
  then show ?thesis unfolding progress_within_def emit_def by (metis fst_conv)
qed

lemma fetch_headlines_silent: "fst (fetch_headlines env) = []"
  by (auto simp: fetch_headlines_def await_def throw_def Let_def fst_bind_run
      split: sum.splits outcome.splits)

lemma ensureFfmpeg_silent: "progress_updates (fst (ensureFfmpeg env)) = []"
  by (auto simp: ensureFfmpeg_def emit_def await_def split: sum.splits)

lemma cleanup_result: "snd (cleanupFfmpegFiles env) = Ok ()"
  by (simp add: cleanupFfmpegFiles_def emit_def split: sum.splits)

lemma delete_silent: "progress_updates (map (\<lambda>e. DeleteFile (g e)) xs) = []"
  by (induction xs) auto

lemma cleanup_silent: "progress_updates (fst (cleanupFfmpegFiles env)) = []"
  by (simp add: cleanupFfmpegFiles_def emit_def delete_silent split: sum.splits)

lemma render_frames_silent: "fst (render_frames env fetched) = []"
  by (simp add: render_frames_def split: option.splits sum.splits)

lemma write_frames_silent: "progress_updates (fst (write_frames env frames)) = []"
  by (induction frames)
    (auto simp: emit_def await_def fst_bind_run progress_updates_append
      split: sum.splits outcome.splits)

lemma exec_ffmpeg_within: "progress_within (exec_ffmpeg env) (encoder_percentages env)"
proof -
  have "progress_within
          (bind_run (emit (Exec EXEC_ARGS # concat (map progress_handler (exec_progress env))))
             (\<lambda>_. await (exec_result env)))
          (progress_updates (Exec EXEC_ARGS # concat (map progress_handler (exec_progress env))) @ [])"
    by (intro progress_within_bind progress_within_emit progress_within_silent)
      (simp add: await_def split: sum.splits)
  then show ?thesis by (simp add: exec_ffmpeg_def encoder_percentages_def)
qed

lemma read_back_silent: "progress_updates (fst (read_back env)) = []"
  by (auto simp: read_back_def emit_def await_def fst_bind_run split: sum.splits outcome.splits)

lemma try_block_within:
  "progress_within (try_block env)
     ([Finite 15, Finite 40, Finite 55] @ encoder_percentages env @ [Finite 85, Finite 100])"
proof -
  have "progress_within (try_block env)
          ([] @ [Finite 15] @ [] @ [] @ [] @ [Finite 40] @ [] @ [Finite 55]
           @ encoder_percentages env @ [Finite 85] @ [] @ [Finite 100])"
    unfolding try_block_def
    apply (rule progress_within_bind)
     apply (rule progress_within_silent, simp add: fetch_headlines_silent)
    apply (rule progress_within_bind)
     apply (rule progress_within_emit [of "[SetHeadlines fetched, SetStatus Rendering, SetProgress (Finite 15)]" for fetched, simplified])
    apply (rule progress_within_bind)
     apply (rule progress_within_silent, rule ensureFfmpeg_silent)
    apply (rule progress_within_bind)
     apply (rule progress_within_silent, rule cleanup_silent)
    apply (rule progress_within_bind)
     apply (rule progress_within_silent, simp add: render_frames_silent)
    apply (rule progress_within_bind)
     apply (rule progress_within_emit [of "[SetProgress (Finite 40)]", simplified])
    apply (rule progress_within_bind)
     apply (rule progress_within_silent, rule write_frames_silent)
    apply (rule progress_within_bind)
     apply (rule progress_within_emit [of "[SetProgress (Finite 55)]", simplified])
    apply (rule progress_within_bind)
     apply (rule exec_ffmpeg_within)
    apply (rule progress_within_bind)
     apply (rule progress_within_emit [of "[SetProgress (Finite 85)]", simplified])
    apply (rule progress_within_bind)
     apply (rule progress_within_silent, rule read_back_silent)
    apply (rule progress_within_emit [of "[SetProgress (Finite 100), SetStatus Done]", simplified])
    done
  then show ?thesis by simp
qed

lemma handleGenerate_progress:
  "progress_updates (handleGenerate env)
     = [Finite 0, Finite 5] @ progress_updates (fst (try_block env))"
  by (cases "try_block env"; cases "snd (try_block env)")
    (auto simp: handleGenerate_def progress_updates_append split: option.splits)

lemma createFrame_name:
  "createFrame c h i n = Inr f \<Longrightarrow> name f = frame_name i"
  by (auto simp: createFrame_def split: if_splits sum.splits)

lemma write_frames_all:
  assumes "\<forall>n d. writeFile env n d = Inr ()"
  shows "write_frames env frames = (map (\<lambda>f. WriteFile (name f) (data f)) frames, Ok ())"
  using assms by (induction frames) (simp_all add: emit_def await_def)

lemma written_files_writes:
  "written_files (map (\<lambda>f. WriteFile (name f) (data f)) frames) = map (\<lambda>f. (name f, data f)) frames"
  by (induction frames) auto

lemma ensureFfmpeg_ok:
  "ffmpeg_loaded env \<or> ffmpeg_load env = Inr () \<Longrightarrow> snd (ensureFfmpeg env) = Ok ()"
  by (auto simp: ensureFfmpeg_def emit_def await_def)

lemma ensureFfmpeg_no_writes: "written_files (fst (ensureFfmpeg env)) = []"
  by (auto simp: ensureFfmpeg_def emit_def await_def split: sum.splits)

lemma delete_no_writes: "written_files (map (\<lambda>e. DeleteFile (g e)) xs) = []"
  by (induction xs) auto

lemma cleanup_no_writes: "written_files (fst (cleanupFfmpegFiles env)) = []"
  by (simp add: cleanupFfmpegFiles_def emit_def delete_no_writes split: sum.splits)

lemma handler_no_writes: "written_files (concat (map progress_handler evs)) = []"
proof (induction evs)
  case Nil
  then show ?case by simp
next
  case (Cons a evs)
  then show ?case by (cases a) (auto simp: written_files_append)
qed

lemma exec_no_writes: "written_files (fst (exec_ffmpeg env)) = []"
  by (auto simp: exec_ffmpeg_def emit_def await_def handler_no_writes split: sum.splits)

lemma read_back_no_writes: "written_files (fst (read_back env)) = []"
  by (auto simp: read_back_def emit_def await_def fst_bind_run split: sum.splits outcome.splits)

lemma written_files_bind:
  "written_files (fst (bind_run m f))
     = written_files (fst m)
       @ (case snd m of Ok v \<Rightarrow> written_files (fst (f v)) | Throw e \<Rightarrow> [] | Hang \<Rightarrow> [])"
  by (cases "snd m") (simp_all add: fst_bind_run written_files_append)

lemma emit_parts [simp]: "fst (emit es) = es" "snd (emit es) = Ok ()"
  by (simp_all add: emit_def)

lemma handleGenerate_written:
  "written_files (handleGenerate env) = written_files (fst (try_block env))"
  by (cases "try_block env"; cases "snd (try_block env)")
    (auto simp: handleGenerate_def written_files_append split: option.splits)

lemma render_frames_all:
  assumes "\<forall>i < length fetched. createFrame (canvas env) (fetched ! i) i (length fetched) = Inr (F i)"
    and "{..<length fetched} \<subseteq> set (completion_order env)"
  shows "render_frames env fetched = ([], Ok (map F [0..<length fetched]))"
proof -
  have "map (\<lambda>(index, item). createFrame (canvas env) item index (length fetched))
          (enumerate 0 fetched) = map Inr (map F [0..<length fetched])"
    using assms(1) by (intro nth_equalityI) (simp_all add: nth_enumerate_eq)
  moreover have "{..<length (map F [0..<length fetched])} \<subseteq> set (completion_order env)"
    using assms(2) by simp
  ultimately have "promise_all
          (map (\<lambda>(index, item). createFrame (canvas env) item index (length fetched))
             (enumerate 0 fetched))
          (completion_order env) = Some (Inr (map F [0..<length fetched]))"
    using promise_all_fulfilled [of "map F [0..<length fetched]" "completion_order env"] by simp
  then show ?thesis by (simp add: render_frames_def)
qed

lemma run_written_files:
  assumes "fetch_headlines env = ([], Ok fetched)"
    and "ffmpeg_loaded env \<or> ffmpeg_load env = Inr ()"
    and "\<forall>i < length fetched. createFrame (canvas env) (fetched ! i) i (length fetched) = Inr (F i)"
    and "{..<length fetched} \<subseteq> set (completion_order env)"
    and "\<forall>n d. writeFile env n d = Inr ()"
  shows "written_files (handleGenerate env) = map (\<lambda>i. (name (F i), data (F i))) [0..<length fetched]"
proof -
  have r: "render_frames env fetched = ([], Ok (map F [0..<length fetched]))"
    by (rule render_frames_all [OF assms(3,4)])
  have w: "write_frames env (map F [0..<length fetched])
             = (map (\<lambda>f. WriteFile (name f) (data f)) (map F [0..<length fetched]), Ok ())"
    by (rule write_frames_all [OF assms(5)])
  have "written_files (fst (try_block env))
          = written_files (map (\<lambda>f. WriteFile (name f) (data f)) (map F [0..<length fetched]))"
    unfolding try_block_def assms(1)
    by (simp add: written_files_bind written_files_append
        ensureFfmpeg_ok [OF assms(2)] ensureFfmpeg_no_writes
        cleanup_result cleanup_no_writes r w exec_no_writes read_back_no_writes
        split: outcome.splits)
  also have "\<dots> = map (\<lambda>f. (name f, data f)) (map F [0..<length fetched])"
    by (rule written_files_writes)
  finally show ?thesis
    by (simp add: handleGenerate_written comp_def)
qed

lemma try_block_succeeds:
  assumes "fetch_headlines env = ([], Ok fetched)"
    and "ffmpeg_loaded env \<or> ffmpeg_load env = Inr ()"
    and "\<forall>i < length fetched. createFrame (canvas env) (fetched ! i) i (length fetched) = Inr (F i)"
    and "{..<length fetched} \<subseteq> set (completion_order env)"
    and "\<forall>n d. writeFile env n d = Inr ()"
    and "exec_result env = Inr ()"
    and "readFile env = Inr d"
  shows "snd (try_block env) = Ok ()"
proof -
  have r: "render_frames env fetched = ([], Ok (map F [0..<length fetched]))"
    by (rule render_frames_all [OF assms(3,4)])
  have w: "snd (write_frames env (map F [0..<length fetched])) = Ok ()"
    by (simp add: write_frames_all [OF assms(5)])
  have e: "snd (exec_ffmpeg env) = Ok ()"
    by (simp add: exec_ffmpeg_def snd_bind_run await_def assms(6))
  have b: "snd (read_back env) = Ok ()"
    by (simp add: read_back_def snd_bind_run await_def assms(7))
  show ?thesis
    unfolding try_block_def
    by (simp add: snd_bind_run assms(1) ensureFfmpeg_ok [OF assms(2)] cleanup_result r w e b)
qed

lemma successful_run_progress:
  assumes "snd (try_block env) = Ok ()"
  shows "progress_updates (handleGenerate env)
           = [Finite 0, Finite 5, Finite 15, Finite 40, Finite 55] @ encoder_percentages env
             @ [Finite 85, Finite 100]"
  using try_block_within [of env] assms
  by (simp add: progress_within_def handleGenerate_progress)

lemma demo_createFrame:
  "\<exists>f. createFrame demo_canvas h i n = Inr f"
  by (simp add: createFrame_def demo_canvas_def formatToHindiDate_def)

lemma demo_fetch:
  "fetch_headlines (demo_env order events) = ([], Ok demo_headlines)"
  by (simp add: fetch_headlines_def demo_env_def await_def demo_headlines_def Let_def)

lemma demo_try_block:
  assumes "{..<2} \<subseteq> set order"
  shows "snd (try_block (demo_env order events)) = Ok ()"
proof -
  obtain F where F: "\<forall>i. createFrame demo_canvas (demo_headlines ! i) i (length demo_headlines) = Inr (F i)"
  proof -
    have "\<forall>i. \<exists>f. createFrame demo_canvas (demo_headlines ! i) i (length demo_headlines) = Inr f"
      using demo_createFrame by blast
    then have "\<exists>F. \<forall>i. createFrame demo_canvas (demo_headlines ! i) i (length demo_headlines) = Inr (F i)"
      by (rule choice)
    then show ?thesis using that by blast
  qed
  show ?thesis
  proof (rule try_block_succeeds [OF demo_fetch, where F = F])
    show "ffmpeg_loaded (demo_env order events) \<or> ffmpeg_load (demo_env order events) = Inr ()"
      by (simp add: demo_env_def)
    show "\<forall>i<length demo_headlines.
       createFrame (canvas (demo_env order events)) (demo_headlines ! i) i (length demo_headlines) = Inr (F i)"
      using F by (simp add: demo_env_def)
    show "{..<length demo_headlines} \<subseteq> set (completion_order (demo_env order events))"
      using assms by (simp add: demo_env_def demo_headlines_def numeral_2_eq_2)
    show "\<forall>n d. writeFile (demo_env order events) n d = Inr ()"
      by (simp add: demo_env_def)
    show "exec_result (demo_env order events) = Inr ()" by (simp add: demo_env_def)
    show "readFile (demo_env order events) = Inr (Binary [])" by (simp add: demo_env_def)
  qed
qed

section \<open>The text sanitizer\<close>

text \<open>
  Claim C10.  The sanitizer is idempotent: sanitizing a sanitized string changes nothing.
  Every string it returns is trimmed, has no two adjacent whitespace code units (and
  no whitespace other than the space), and has no part that the tag pattern
  \<open><[^>]+>\<close> matches, that is no \<open><\<close> followed by a non-empty run without \<open>>\<close> and a \<open>>\<close>.
\<close>

theorem sanitizeText_idempotent:
  "sanitizeText (Some (sanitizeText (Some s))) = sanitizeText (Some s)
   \<and> trimmed (sanitizeText (Some s))
   \<and> single_spaced (sanitizeText (Some s))
   \<and> \<not> (\<exists>xs X ys. sanitizeText (Some s) = xs @ 60 # X @ 62 # ys \<and> X \<noteq> [] \<and> 62 \<notin> set X)"
proof (cases "s = []")
  case True
  then show ?thesis by (simp add: sanitizeText_def trimmed_def)
next
  case False
  let ?t = "trim (collapse_ws (strip_tags s))"
  have t: "sanitizeText (Some s) = ?t" using False by (simp add: sanitizeText_def)
  have tag: "\<not> has_tag ?t" by (simp add: has_tag_strip_tags has_tag_collapse_ws has_tag_trim)
  then have 1: "strip_tags ?t = ?t" by (rule strip_tags_id)
  have sp: "single_spaced ?t" by (simp add: single_spaced_collapse_ws single_spaced_trim)
  then have 2: "collapse_ws ?t = ?t" by (rule collapse_ws_id)
  have tr: "trimmed ?t" by (rule trimmed_trim)
  then have 3: "trim ?t = ?t" by (rule trim_id)
  have "sanitizeText (Some ?t) = ?t" by (simp add: sanitizeText_def 1 2 3)
  with tag sp tr show ?thesis unfolding t has_tag_iff by blast
qed

theorem sanitizeText_idempotent_witness:
  "sanitizeText (Some (ascii '' <b>Hi</b>  there <br/> '')) = ascii ''Hi there''
   \<and> sanitizeText (Some (ascii ''Hi there'')) = ascii ''Hi there''
   \<and> trimmed (ascii ''Hi there'') \<and> single_spaced (ascii ''Hi there'')"
proof -
  have e: "sanitizeText (Some (ascii '' <b>Hi</b>  there <br/> '')) = ascii ''Hi there''"
    by (simp add: sanitizeText_def ascii_def trim_def is_ws_def)
  from sanitizeText_idempotent [of "ascii '' <b>Hi</b>  there <br/> ''"] show ?thesis
    unfolding e by simp
qed

section \<open>The headlines route\<close>

text \<open>
  What the route does with the items.  The coercion of \<open>channel?.item\<close> gives no item
  when the field, the channel, the \<open>rss\<close> element or the document is missing, and the one
  item when the field holds a single value.  The sanitizer returns for a string, for
  \<open>undefined\<close> and for every other falsy value, and throws for every other value.  When
  the map returns, it returns one headline for each of the first six items, in order.
\<close>

lemma normalize_no_item:
  "normalize (Some \<lparr> rss = Some \<lparr> channel = Some \<lparr> item = ItemUndefined \<rparr> \<rparr> \<rparr>) = Inr []"
  "normalize (Some \<lparr> rss = Some \<lparr> channel = Some \<lparr> item = ItemFalsy \<rparr> \<rparr> \<rparr>) = Inr []"
  "normalize (Some \<lparr> rss = Some \<lparr> channel = None \<rparr> \<rparr>) = Inr []"
  "normalize (Some \<lparr> rss = None \<rparr>) = Inr []"
  "normalize None = Inr []"
  by (simp_all add: normalize_def items_of_def channel_of_def)

lemma normalize_single_item:
  "normalize (Some \<lparr> rss = Some \<lparr> channel = Some \<lparr> item = ItemObject it \<rparr> \<rparr> \<rparr>)
     = (case to_headline it of Inl e \<Rightarrow> Inl e | Inr h \<Rightarrow> Inr [h])"
  by (simp add: normalize_def items_of_def channel_of_def split: sum.splits)

lemma sanitizeText_at_runtime_throws:
  "(\<exists>e. sanitizeText_at_runtime v = Inl e) \<longleftrightarrow> truthy v \<and> (\<forall>s. v \<noteq> JStr s)"
  by (cases v) (auto simp: sanitizeText_at_runtime_def)

lemma map_headlines_returned:
  "map_headlines xs = Inr hs \<Longrightarrow>
     length hs = length xs \<and> (\<forall>i < length xs. to_headline (xs ! i) = Inr (hs ! i))"
proof (induction xs arbitrary: hs)
  case Nil
  then show ?case by simp
next
  case (Cons x xs)
  from Cons.prems obtain h hs' where h: "to_headline x = Inr h"
    and r: "map_headlines xs = Inr hs'" and hs: "hs = h # hs'"
    by (auto split: sum.splits)
  from Cons.IH [OF r] h hs show ?case by (auto simp: nth_Cons split: nat.splits)
qed

lemma normalize_returned:
  assumes "normalize parsed = Inr hs"
  shows "length hs = min (length (items_of (channel_of parsed))) 6
    \<and> (\<forall>i < length hs. to_headline (items_of (channel_of parsed) ! i) = Inr (hs ! i))"
proof -
  let ?items = "items_of (channel_of parsed)"
  from assms have m: "map_headlines (take 6 ?items) = Inr hs" by (simp add: normalize_def)
  from map_headlines_returned [OF m]
  have len: "length hs = length (take 6 ?items)"
    and nth: "\<forall>i < length (take 6 ?items). to_headline (take 6 ?items ! i) = Inr (hs ! i)"
    by blast+
  from len have l: "length hs = min (length ?items) 6" by simp
  have "\<forall>i < length hs. to_headline (?items ! i) = Inr (hs ! i)"
  proof (intro allI impI)
    fix i assume i: "i < length hs"
    with len nth have "to_headline (take 6 ?items ! i) = Inr (hs ! i)" by simp
    moreover from i l have "i < 6" by simp
    ultimately show "to_headline (?items ! i) = Inr (hs ! i)" by simp
  qed
  with l show ?thesis by blast
qed

text \<open>
  Claim C5.  When the channel's \<open>item\<close> is one item object, not an array, the normalizer
  is to return a list of exactly one headline built from that item.  The code does not
  do so for every such item: for the one item of the feed
  \<open><rss><channel><item><title>2024</title></item></channel></rss>\<close>, whose title the
  parser leaves as a number, the sanitizer throws and no list is returned.
\<close>

theorem normalize_single_item_numeric_title_throws:
  "normalize numeric_title_feed = Inl (ErrorObj (ascii ''value.replace is not a function''))"
  by (simp add: numeric_title_feed_def numeric_title_item_def normalize_def items_of_def
      channel_of_def to_headline_def sanitizeText_at_runtime_def)



text \<open>What the route answers in each case; the 500 covers a throw of the map as well.\<close>

lemma GET_cases:
  "(upstream env = Inr response \<and> up_ok response \<and> up_text response = Inr xml
      \<and> xml_parse env xml = Inr parsed \<and> normalize parsed = Inr hs
      \<longrightarrow> GET env = \<lparr> http_status = 200, http_body = HeadlinesBody hs \<rparr>)
   \<and> (upstream env = Inr response \<and> \<not> up_ok response
      \<longrightarrow> http_status (GET env) = 502 \<and> (\<exists>msg. http_body (GET env) = ErrorBody msg))
   \<and> (upstream env = Inl e
        \<or> (upstream env = Inr response \<and> up_ok response \<and> up_text response = Inl e)
        \<or> (upstream env = Inr response \<and> up_ok response \<and> up_text response = Inr xml
            \<and> xml_parse env xml = Inl e)
        \<or> (upstream env = Inr response \<and> up_ok response \<and> up_text response = Inr xml
            \<and> xml_parse env xml = Inr parsed \<and> normalize parsed = Inl e)
      \<longrightarrow> http_status (GET env) = 500 \<and> (\<exists>msg. http_body (GET env) = ErrorBody msg))"
  by (auto simp: GET_def unexpected_error_def)

section \<open>The date caption\<close>

text \<open>
  The date formatter never throws: the formatter of the platform, which throws on an
  invalid date, is called for a valid date only.  For an empty input, and for an input
  that does not parse as a date, the result is the fixed placeholder; for an input that
  parses as a date it is whatever the platform's formatter returns for that date.
\<close>

lemma formatToHindiDate_guards:
  "(\<exists>s. formatToHindiDate date_parse intl_format v = Inr s)
   \<and> (v = [] \<or> date_parse v = None
        \<longrightarrow> formatToHindiDate date_parse intl_format v = Inr TIME_UNAVAILABLE)
   \<and> (v \<noteq> [] \<and> date_parse v = Some t
        \<longrightarrow> formatToHindiDate date_parse intl_format v = Inr (intl_format t))"
  by (cases "date_parse v") (auto simp: formatToHindiDate_def Intl_format_def)

section \<open>Wrapping a text\<close>

text \<open>
  Claim C2, as the code has it.  Let the greedy wrap of the normalized text give exactly
  \<open>k + 1\<close> lines, for a line cap \<open>k\<close> of at least one.  Then exactly \<open>k\<close> lines are drawn; the
  first \<open>k - 1\<close> are the greedy lines; the last is a prefix of the \<open>k\<close>-th greedy line
  followed by the ellipsis, and its measured width with the ellipsis is within the
  budget, unless the prefix is empty (the ellipsis alone is drawn, whatever its width).
\<close>

theorem wrapHeadlineText_overflow_ellipsis:
  assumes "length (greedy_lines m maxWidth (trim (collapse_ws text))) = k + 1" and "1 \<le> k"
  shows "length (drawn_texts (snd (wrapHeadlineText m text x y maxWidth lineHeight (of_nat k)))) = k
    \<and> take (k - 1) (drawn_texts (snd (wrapHeadlineText m text x y maxWidth lineHeight (of_nat k))))
        = take (k - 1) (greedy_lines m maxWidth (trim (collapse_ws text)))
    \<and> (\<exists>n. last (drawn_texts (snd (wrapHeadlineText m text x y maxWidth lineHeight (of_nat k))))
            = take n (greedy_lines m maxWidth (trim (collapse_ws text)) ! (k - 1)) @ [8230]
          \<and> (m (last (drawn_texts (snd (wrapHeadlineText m text x y maxWidth lineHeight (of_nat k)))))
                \<le> maxWidth
              \<or> n = 0))"
proof -
  let ?lines = "greedy_lines m maxWidth (trim (collapse_ws text))"
  let ?r = "truncate_line m maxWidth (?lines ! (k - 1))"
  let ?d = "drawn_texts (snd (wrapHeadlineText m text x y maxWidth lineHeight (of_nat k)))"
  from assms have a: "length ?lines = Suc k" by simp
  have d: "?d = (take k ?lines)[k - 1 := ?r @ [8230]]" by (rule wrap_overflow [OF a assms(2)])
  have len: "length ?d = k" unfolding d using a by simp
  have tk: "take (k - 1) ?d = take (k - 1) ?lines" unfolding d using a by (simp add: min_def)
  have "?d \<noteq> []" using len assms(2) by auto
  then have "last ?d = ?d ! (k - 1)" using len by (simp add: last_conv_nth)
  also have "\<dots> = ?r @ [8230]" unfolding d using a assms(2) by simp
  finally have last: "last ?d = ?r @ [8230]" .
  from truncate_line_result [of m maxWidth "?lines ! (k - 1)"]
  obtain n where fit: "m (?r @ [8230]) \<le> maxWidth \<or> ?r = []" and n: "?r = take n (?lines ! (k - 1))"
    by blast
  show ?thesis
  proof (cases "?r = []")
    case True
    then have "last ?d = take 0 (?lines ! (k - 1)) @ [8230]" using last by simp
    with len tk show ?thesis by blast
  next
    case False
    with fit last n have "last ?d = take n (?lines ! (k - 1)) @ [8230] \<and> m (last ?d) \<le> maxWidth"
      by simp
    with len tk show ?thesis by blast
  qed
qed

theorem wrapHeadlineText_overflow_ellipsis_witness:
  "length (greedy_lines ten_per_unit 25 (trim (collapse_ws (ascii ''aa bb cc'')))) = 2 + 1
   \<and> drawn_texts (snd (wrapHeadlineText ten_per_unit (ascii ''aa bb cc'') 80 220 25 58 2))
       = [ascii ''aa'', ascii ''b'' @ [8230]]
   \<and> ten_per_unit (ascii ''b'' @ [8230]) \<le> 25"
proof -
  have h: "length (greedy_lines ten_per_unit 25 (trim (collapse_ws (ascii ''aa bb cc'')))) = 2 + 1"
    by (simp add: greedy_lines_def ten_per_unit_def ascii_def trim_def is_ws_def Let_def)
  have d: "drawn_texts (snd (wrapHeadlineText ten_per_unit (ascii ''aa bb cc'') 80 220 25 58 2))
       = [ascii ''aa'', ascii ''b'' @ [8230]]"
    by (simp add: greedy_lines_def wrapHeadlineText_def bound_lines_def ten_per_unit_def ascii_def
        trim_def is_ws_def Let_def truncate_line.simps)
  from wrapHeadlineText_overflow_ellipsis [OF h, of 80 220 58] h d show ?thesis
    by (simp add: ten_per_unit_def ascii_def)
qed

text \<open>
  Claim C2 as stated fails in two ways.  With a budget of 5 and ten units for every code
  unit, the text \<open>a b\<close> wraps to two lines for a cap of one, and the line drawn is the
  ellipsis alone, ten units wide.  With a cap of zero, a text of one greedy line is drawn
  as one line, not as none, and without an ellipsis.
\<close>

theorem wrapHeadlineText_overflow_counterexample:
  "length (greedy_lines ten_per_unit 5 (trim (collapse_ws (ascii ''a b'')))) = 1 + 1
   \<and> drawn_texts (snd (wrapHeadlineText ten_per_unit (ascii ''a b'') 0 0 5 10 1)) = [[8230]]
   \<and> \<not> ten_per_unit [8230] \<le> 5
   \<and> length (greedy_lines ten_per_unit 100 (trim (collapse_ws (ascii ''a'')))) = 0 + 1
   \<and> drawn_texts (snd (wrapHeadlineText ten_per_unit (ascii ''a'') 0 0 100 10 0)) = [ascii ''a'']"
  by (simp add: greedy_lines_def wrapHeadlineText_def bound_lines_def ten_per_unit_def ascii_def
      trim_def is_ws_def Let_def truncate_line.simps)

text \<open>
  Claim C3, as the code has it.  If the normalized text is not empty and each of its
  prefixes of two or more words, the whole text included, is measured within the
  budget, then exactly one line is drawn: the normalized text, at the given position,
  with no ellipsis; the returned position is one line height further.
\<close>

theorem wrapHeadlineText_fitting_text_one_line:
  assumes "trim (collapse_ws text) \<noteq> []"
    and "\<forall>k. 2 \<le> k \<and> k \<le> length (split_space (trim (collapse_ws text)))
          \<longrightarrow> m (join_space (take k (split_space (trim (collapse_ws text))))) \<le> maxWidth"
  shows "wrapHeadlineText m text x y maxWidth lineHeight maxLines
           = (y + lineHeight, [FillText (trim (collapse_ws text)) x y])"
proof -
  let ?n = "trim (collapse_ws text)"
  have "greedy_lines m maxWidth ?n = [?n]"
    using greedy_lines_all_fit [OF assms(1) normalized_words_nonempty [OF assms(1)] assms(2)] .
  then show ?thesis using assms(1)
    by (simp add: wrapHeadlineText_def Let_def bound_lines_single)
qed

theorem wrapHeadlineText_fitting_text_one_line_witness:
  "wrapHeadlineText ten_per_unit (ascii ''  Hello   world '') 80 220 200 58 3
     = (278, [FillText (ascii ''Hello world'') 80 220])"
proof -
  have n: "trim (collapse_ws (ascii ''  Hello   world '')) = ascii ''Hello world''"
    by (simp add: ascii_def trim_def is_ws_def)
  have w: "split_space (ascii ''Hello world'') = [ascii ''Hello'', ascii ''world'']"
    by (simp add: ascii_def)
  have h1: "trim (collapse_ws (ascii ''  Hello   world '')) \<noteq> []"
    unfolding n by (simp add: ascii_def)
  have h2: "\<forall>k. 2 \<le> k \<and> k \<le> length (split_space (trim (collapse_ws (ascii ''  Hello   world ''))))
          \<longrightarrow> ten_per_unit (join_space (take k (split_space (trim (collapse_ws (ascii ''  Hello   world ''))))))
                \<le> 200"
  proof (intro allI impI)
    fix k :: nat
    assume "2 \<le> k \<and> k \<le> length (split_space (trim (collapse_ws (ascii ''  Hello   world ''))))"
    then have "k = 2" unfolding n w by simp
    then show "ten_per_unit (join_space (take k (split_space (trim (collapse_ws (ascii ''  Hello   world ''))))))
                \<le> 200"
      unfolding n w by (simp add: ten_per_unit_def ascii_def)
  qed
  from wrapHeadlineText_fitting_text_one_line [OF h1 h2, of 80 220 58 3] show ?thesis
    unfolding n by simp
qed

text \<open>
  Claim C3 as stated fails in two ways.  The empty text fits any budget, and nothing is
  drawn for it.  Under a measure that is not monotone, the text \<open>a b c\<close> fits the budget
  as a whole, but its prefix \<open>a b\<close> does not, and two lines are drawn.
\<close>

theorem wrapHeadlineText_fitting_text_counterexample:
  "ten_per_unit (trim (collapse_ws [])) \<le> 100
   \<and> drawn_texts (snd (wrapHeadlineText ten_per_unit [] 80 220 100 58 3)) = []
   \<and> dip_measure (trim (collapse_ws (ascii ''a b c''))) \<le> 100
   \<and> drawn_texts (snd (wrapHeadlineText dip_measure (ascii ''a b c'') 80 220 100 58 3))
       = [ascii ''a'', ascii ''b c'']"
  by (simp add: greedy_lines_def wrapHeadlineText_def bound_lines_def ten_per_unit_def
      dip_measure_def ascii_def trim_def is_ws_def Let_def)

section \<open>A run of the page\<close>

text \<open>
  Claim C1.  Take a run whose request returns the headlines \<open>fetched\<close>, at most six of
  them, in which the encoder loads, every frame renders, every render completes (in
  whatever order) and every write succeeds.  Then the files written to the encoder are
  named \<open>frame000.png\<close>, \<open>frame001.png\<close>, ... in that order, one for each headline, and the
  \<open>i\<close>-th file written is the frame that \<open>createFrame\<close> renders from the \<open>i\<close>-th headline with
  index \<open>i\<close>.  (With no headline the run ends in the error state and no file is written.)
\<close>

theorem frames_named_and_ordered:
  assumes "headlines_fetch env = Inr response" and "resp_ok response"
    and "resp_json response = Inr p" and "payload_headlines p = Some fetched"
    and "length fetched \<le> 6"
    and "ffmpeg_loaded env \<or> ffmpeg_load env = Inr ()"
    and "\<forall>i < length fetched. \<exists>f. createFrame (canvas env) (fetched ! i) i (length fetched) = Inr f"
    and "{..<length fetched} \<subseteq> set (completion_order env)"
    and "\<forall>n d. writeFile env n d = Inr ()"
  shows "map fst (written_files (handleGenerate env)) = take (length fetched) FRAME_NAMES
    \<and> (\<forall>i < length fetched.
          createFrame (canvas env) (fetched ! i) i (length fetched)
            = Inr \<lparr> name = fst (written_files (handleGenerate env) ! i),
                    data = snd (written_files (handleGenerate env) ! i) \<rparr>)"
proof (cases "fetched = []")
  case True
  have "try_block env = ([], Throw (ErrorObj NO_HEADLINES))"
    unfolding try_block_def
      fetch_headlines_empty [OF assms(1,2,3) disjI2 [OF assms(4) [unfolded True]]]
    by simp
  then have "written_files (handleGenerate env) = []" by (simp add: handleGenerate_written)
  with True show ?thesis by simp
next
  case False
  from assms(7) obtain F
    where F: "\<forall>i < length fetched. createFrame (canvas env) (fetched ! i) i (length fetched) = Inr (F i)"
    by metis
  have fh: "fetch_headlines env = ([], Ok fetched)"
    by (rule fetch_headlines_some [OF assms(1,2,3,4) False])
  have wf: "written_files (handleGenerate env) = map (\<lambda>i. (name (F i), data (F i))) [0..<length fetched]"
    by (rule run_written_files [OF fh assms(6) F assms(8,9)])
  have nm: "name (F i) = FRAME_NAMES ! i" if "i < length fetched" for i
  proof -
    from that F have "name (F i) = frame_name i" using createFrame_name by blast
    moreover from that assms(5) have "i < 6" by simp
    ultimately show ?thesis using frame_name_small by (simp add: FRAME_NAMES_def)
  qed
  have "map fst (written_files (handleGenerate env)) = take (length fetched) FRAME_NAMES"
    unfolding wf using assms(5) nm
    by (intro nth_equalityI) (simp_all add: FRAME_NAMES_def)
  moreover have "\<forall>i < length fetched.
          createFrame (canvas env) (fetched ! i) i (length fetched)
            = Inr \<lparr> name = fst (written_files (handleGenerate env) ! i),
                    data = snd (written_files (handleGenerate env) ! i) \<rparr>"
    unfolding wf using F by simp
  ultimately show ?thesis by blast
qed

theorem frames_named_and_ordered_witness:
  "map fst (written_files (handleGenerate (demo_env [1, 0] [])))
     = [ascii ''frame000.png'', ascii ''frame001.png'']"
proof -
  let ?env = "demo_env [1, 0] []"
  let ?p = "\<lparr> payload_headlines = Some demo_headlines, payload_error = None \<rparr>"
  let ?r = "\<lparr> resp_ok = True, resp_json = Inr ?p \<rparr>"
  have 1: "headlines_fetch ?env = Inr ?r" by (simp add: demo_env_def)
  have 2: "resp_ok ?r" by simp
  have 3: "resp_json ?r = Inr ?p" by simp
  have 4: "payload_headlines ?p = Some demo_headlines" by simp
  have 5: "length demo_headlines \<le> 6" by (simp add: demo_headlines_def)
  have 6: "ffmpeg_loaded ?env \<or> ffmpeg_load ?env = Inr ()" by (simp add: demo_env_def)
  have 7: "\<forall>i < length demo_headlines.
      \<exists>f. createFrame (canvas ?env) (demo_headlines ! i) i (length demo_headlines) = Inr f"
    by (simp add: demo_env_def createFrame_def demo_canvas_def formatToHindiDate_def)
  have 8: "{..<length demo_headlines} \<subseteq> set (completion_order ?env)"
    by (auto simp: demo_env_def demo_headlines_def)
  have 9: "\<forall>n d. writeFile ?env n d = Inr ()" by (simp add: demo_env_def)
  from frames_named_and_ordered [OF 1 2 3 4 5 6 7 8 9] show ?thesis
    by (simp add: demo_headlines_def FRAME_NAMES_def)
qed

text \<open>
  Claim C4.  When the request succeeds but the list of headlines is empty (or is not a
  list), the run sets the status to \<open>Fetching\<close> and then to \<open>Error\<close>, and to nothing else; the
  error it sets is the message that no headlines are available today; and the run ends,
  with the reset of the in-progress flag as its last step.
\<close>

theorem empty_headlines_end_in_error:
  assumes "headlines_fetch env = Inr response" and "resp_ok response"
    and "resp_json response = Inr p"
    and "payload_headlines p = None \<or> payload_headlines p = Some []"
  shows "status_updates (handleGenerate env) = [Fetching, Error]
    \<and> error_updates (handleGenerate env) = [None, Some NO_HEADLINES]
    \<and> last (handleGenerate env) = SetIsGenerating False"
proof -
  have "try_block env = ([], Throw (ErrorObj NO_HEADLINES))"
    unfolding try_block_def fetch_headlines_empty [OF assms] by simp
  then show ?thesis
    by (simp add: handleGenerate_def status_updates_append error_updates_append
        split: option.splits)
qed

theorem empty_headlines_end_in_error_witness:
  "status_updates (handleGenerate empty_feed_env) = [Fetching, Error]
   \<and> error_updates (handleGenerate empty_feed_env) = [None, Some NO_HEADLINES]"
  using empty_headlines_end_in_error [of empty_feed_env
      "\<lparr> resp_ok = True, resp_json = Inr \<lparr> payload_headlines = Some [], payload_error = None \<rparr> \<rparr>"
      "\<lparr> payload_headlines = Some [], payload_error = None \<rparr>"]
  by (simp add: empty_feed_env_def demo_env_def)

text \<open>
  Claim C8.  Within a run the progress value is never to decrease.  The code sets the
  checkpoints 55 before and 85 after the encode, but during the encode the handler sets
  the encoder's own percentage, whatever the value before: when the encoder reports
  0, then one half, then 1, the progress goes 0, 5, 15, 40, 55, then back to 0, on to 50
  and 100, and back to 85 before the final 100.
\<close>

theorem progress_decreases_during_encode:
  "progress_updates
     (handleGenerate (demo_env [0, 1] [Some (Finite 0), Some (Finite (1 / 2)), Some (Finite 1)]))
     = [Finite 0, Finite 5, Finite 15, Finite 40, Finite 55,
        Finite 0, Finite 50, Finite 100, Finite 85, Finite 100]"
proof -
  let ?env = "demo_env [0, 1] [Some (Finite 0), Some (Finite (1 / 2)), Some (Finite 1)]"
  have "{..<2} \<subseteq> set [0, 1 :: nat]" by auto
  then have "snd (try_block ?env) = Ok ()" by (rule demo_try_block)
  then have "progress_updates (handleGenerate ?env)
     = [Finite 0, Finite 5, Finite 15, Finite 40, Finite 55] @ encoder_percentages ?env
       @ [Finite 85, Finite 100]"
    by (rule successful_run_progress)
  moreover have "encoder_percentages ?env = [Finite 0, Finite 50, Finite 100]"
    by (simp add: encoder_percentages_def demo_env_def double_eval)
  ultimately show ?thesis by simp
qed


end
